theory Spec2Isabelle
  imports Complex_Main "HOL-Library.Word"
begin

section \<open>Strings\<close>

text \<open>
  A JavaScript string is a sequence of UTF-16 code units; \<open>length\<close>, \<open>slice\<close>,
  \<open>startsWith\<close> and a regular expression without the \<open>u\<close> flag all work on code
  units.  ASCII literals of the source are lifted with \<open>ascii\<close>.
\<close>

type_synonym jschar = "16 word"
type_synonym jsstring = "jschar list"

definition ascii :: "string \<Rightarrow> jsstring" where
  "ascii s = map (\<lambda>c. of_nat (of_char c)) s"

text \<open>\<open>s.startsWith(p)\<close>: \<open>p\<close> stands at position 0 of \<open>s\<close>.\<close>

definition startsWith :: "jsstring \<Rightarrow> jsstring \<Rightarrow> bool" where
  "startsWith p s = (take (length p) s = p)"

definition hash :: jsstring where
  "hash = [0x23]"

text \<open>
  The code units that \<open>String.prototype.trim\<close> strips: WhiteSpace (TAB, VT, FF, SP,
  NBSP, ZWNBSP and the category Zs) and LineTerminator (LF, CR, LS, PS).
\<close>

definition isWhiteSpace :: "jschar \<Rightarrow> bool" where
  "isWhiteSpace c = (c \<in> {0x09, 0x0A, 0x0B, 0x0C, 0x0D, 0x20, 0xA0, 0x1680,
     0x2000, 0x2001, 0x2002, 0x2003, 0x2004, 0x2005, 0x2006, 0x2007, 0x2008, 0x2009, 0x200A,
     0x2028, 0x2029, 0x202F, 0x205F, 0x3000, 0xFEFF})"

definition trim :: "jsstring \<Rightarrow> jsstring" where
  "trim s = rev (dropWhile isWhiteSpace (rev (dropWhile isWhiteSpace s)))"

text \<open>
  \<open>s.slice(start)\<close> and \<open>s.slice(start, end)\<close>: a negative position counts from the
  end, and every position is clamped to \<open>0 .. s.length\<close>.
\<close>

definition slice_pos :: "jsstring \<Rightarrow> int \<Rightarrow> nat" where
  "slice_pos s k = (if k < 0 then nat (max (int (length s) + k) 0) else min (nat k) (length s))"

definition slice :: "jsstring \<Rightarrow> int \<Rightarrow> int \<Rightarrow> jsstring" where
  "slice s from to = take (slice_pos s to - slice_pos s from) (drop (slice_pos s from) s)"

definition slice_from :: "jsstring \<Rightarrow> int \<Rightarrow> jsstring" where
  "slice_from s from = drop (slice_pos s from) s"

section \<open>The pagination constants\<close>

definition MAX_LINES_PER_PAGE :: int where
  "MAX_LINES_PER_PAGE = 19"

definition CHARS_PER_LINE :: int where
  "CHARS_PER_LINE = 22"

definition MAX_CHARS_PER_PARA :: nat where
  "MAX_CHARS_PER_PARA = 69"

section \<open>splitIntoSentences\<close>

text \<open>The class \<open>[\<dots>]\<close> of the regular expression: the six sentence-boundary marks.\<close>

definition isBoundary :: "jschar \<Rightarrow> bool" where
  "isBoundary c = (c \<in> {0x3002, 0xFF01, 0xFF1F, 0x2E, 0x21, 0x3F})"

text \<open>
  \<open>text.match(/[^\<dots>]+[\<dots>]+|[^\<dots>]+$/g)\<close>: all matches, left to right.  At a boundary
  mark neither alternative matches and the search moves on by one code unit.  At any
  other code unit the greedy run of non-marks is taken; it is followed by marks (first
  alternative, which takes the whole run of marks) or by the end of the text (second
  alternative).
\<close>

function matchSentences :: "jsstring \<Rightarrow> jsstring list" where
  "matchSentences [] = []"
| "matchSentences (c # cs) =
     (if isBoundary c then matchSentences cs
      else
        let run = takeWhile (\<lambda>x. \<not> isBoundary x) (c # cs);
            rest = dropWhile (\<lambda>x. \<not> isBoundary x) (c # cs);
            marks = takeWhile isBoundary rest;
            rest' = dropWhile isBoundary rest
        in (run @ marks) # matchSentences rest')"
  by pat_completeness auto
termination
proof (relation "measure length")
  show "wf (measure length)" by simp
next
  fix c :: jschar and cs
  show "isBoundary c \<Longrightarrow> (cs, c # cs) \<in> measure length" by simp
next
  fix c :: jschar and cs run rest marks rest'
  assume nb: "\<not> isBoundary c"
    and rest: "rest = dropWhile (\<lambda>x. \<not> isBoundary x) (c # cs)"
    and rest': "rest' = dropWhile isBoundary rest"
  have "length rest' \<le> length rest"
    unfolding rest' by (rule length_dropWhile_le)
  also have "length rest \<le> length cs"
    unfolding rest using nb by (simp add: length_dropWhile_le)
  finally show "(rest', c # cs) \<in> measure length" by simp
qed

text \<open>\<open>\<dots> || [text]\<close>: \<open>match\<close> yields \<open>null\<close> when there is no match at all.\<close>

definition splitIntoSentences :: "jsstring \<Rightarrow> jsstring list" where
  "splitIntoSentences text = (case matchSentences text of [] \<Rightarrow> [text] | ms \<Rightarrow> ms)"

subsection \<open>Sentence spans are non-empty and lose only leading marks\<close>

lemma matchSentences_nonempty: "s \<in> set (matchSentences t) \<Longrightarrow> s \<noteq> []"
  by (induction t rule: matchSentences.induct) (auto simp: Let_def split: if_splits)

lemma concat_matchSentences: "concat (matchSentences t) = dropWhile isBoundary t"
proof (induction t rule: matchSentences.induct)
  case 1
  show ?case by simp
next
  case (2 c cs)
  show ?case
  proof (cases "isBoundary c")
    case True
    with 2 show ?thesis by simp
  next
    case False
    define rest where "rest = dropWhile (\<lambda>x. \<not> isBoundary x) (c # cs)"
    have "concat (matchSentences (c # cs)) =
        takeWhile (\<lambda>x. \<not> isBoundary x) (c # cs) @ takeWhile isBoundary rest
          @ concat (matchSentences (dropWhile isBoundary rest))"
      using False by (simp add: Let_def rest_def)
    also have "concat (matchSentences (dropWhile isBoundary rest)) = dropWhile isBoundary (dropWhile isBoundary rest)"
      using 2(2)[OF False refl refl refl refl] by (simp add: rest_def)
    also have "dropWhile isBoundary (dropWhile isBoundary rest) = dropWhile isBoundary rest"
      by (simp add: dropWhile_idem)
    finally show ?thesis using False by (simp add: rest_def)
  qed
qed

lemma splitIntoSentences_nonempty: "splitIntoSentences t \<noteq> []"
  by (simp add: splitIntoSentences_def split: list.splits)

lemma splitIntoSentences_multi:
  "1 < length (splitIntoSentences t) \<Longrightarrow> splitIntoSentences t = matchSentences t"
  by (auto simp: splitIntoSentences_def split: list.splits)

lemma tail_move_shortens:
  assumes "1 < length (splitIntoSentences t)"
  shows "length (concat (butlast (splitIntoSentences t))) + length (last (splitIntoSentences t)) \<le> length t"
    and "last (splitIntoSentences t) \<noteq> []"
    and "concat (butlast (splitIntoSentences t)) \<noteq> []"
proof -
  let ?ss = "splitIntoSentences t"
  have eq: "?ss = matchSentences t" using assms by (rule splitIntoSentences_multi)
  have ne: "?ss \<noteq> []" by (rule splitIntoSentences_nonempty)
  have "concat (butlast ?ss) @ last ?ss = concat ?ss"
    using ne by (metis append_butlast_last_id concat.simps(2) concat_append append_Nil2 concat.simps(1))
  then have "length (concat (butlast ?ss)) + length (last ?ss) = length (concat ?ss)"
    by (metis length_append)
  also have "\<dots> \<le> length t"
    unfolding eq concat_matchSentences by (rule length_dropWhile_le)
  finally show "length (concat (butlast ?ss)) + length (last ?ss) \<le> length t" .
  have "last ?ss \<in> set (matchSentences t)" using ne eq by (metis last_in_set)
  then show "last ?ss \<noteq> []" by (rule matchSentences_nonempty)
  from assms obtain a b rest where ss: "?ss = a # b # rest"
    by (cases ?ss; cases "tl ?ss") auto
  then have "a \<in> set (matchSentences t)" using eq by simp
  then have "a \<noteq> []" by (rule matchSentences_nonempty)
  then show "concat (butlast ?ss) \<noteq> []" using ss by simp
qed

section \<open>reflowContent\<close>

text \<open>
  The inner \<open>while\<close> loop of \<open>reflowContent\<close> at slot \<open>i\<close>: the local \<open>current\<close> and
  the working \<open>buffer\<close> are threaded through and returned.  \<open>sentences.pop()\<close> is
  \<open>last\<close> (the list has at least two elements there) and \<open>sentences.join('')\<close> of what
  is left is \<open>concat (butlast sentences)\<close>.
\<close>

function reflow_while :: "nat \<Rightarrow> jsstring \<Rightarrow> jsstring list \<Rightarrow> jsstring \<times> jsstring list" where
  "reflow_while i current buffer =
     (if length current > MAX_CHARS_PER_PARA then
        let sentences = splitIntoSentences current in
        if length sentences \<le> 1 then (current, buffer)
        else
          let lastSentence = last sentences;
              remainder = concat (butlast sentences);
              buffer' = (if i + 1 < length buffer
                         then buffer[i + 1 := lastSentence @ buffer ! (i + 1)]
                         else buffer @ [lastSentence])
          in reflow_while i remainder buffer'
      else (current, buffer))"
  by pat_completeness auto
termination
proof (relation "measure (\<lambda>(i, current, buffer). length current)")
  show "wf (measure (\<lambda>(i, current, buffer). length current))" by simp
next
  fix i :: nat and current :: jsstring and buffer :: "jsstring list"
    and sentences lastSentence remainder buffer'
  assume "sentences = splitIntoSentences current" "\<not> length sentences \<le> 1"
    "remainder = concat (butlast sentences)"
  then show "((i, remainder, buffer'), (i, current, buffer))
      \<in> measure (\<lambda>(i, current, buffer). length current)"
    using tail_move_shortens(1,2)[of current] by (cases "last (splitIntoSentences current)") auto
qed

declare reflow_while.simps [simp del]

lemma reflow_while_stop:
  "\<not> (length c > MAX_CHARS_PER_PARA \<and> 1 < length (splitIntoSentences c)) \<Longrightarrow> reflow_while i c b = (c, b)"
  by (subst reflow_while.simps) (auto simp: Let_def)

lemma reflow_while_move:
  "length c > MAX_CHARS_PER_PARA \<Longrightarrow> 1 < length (splitIntoSentences c) \<Longrightarrow>
   reflow_while i c b =
     reflow_while i (concat (butlast (splitIntoSentences c)))
       (if i + 1 < length b
        then b[i + 1 := last (splitIntoSentences c) @ b ! (i + 1)]
        else b @ [last (splitIntoSentences c)])"
  by (subst reflow_while.simps) (simp add: Let_def)

text \<open>The number of code units held by the slots from index \<open>i\<close> on.\<close>

definition chars_from :: "nat \<Rightarrow> jsstring list \<Rightarrow> nat" where
  "chars_from i b = sum_list (map length (drop i b))"

lemma chars_from_update:
  "Suc i < length b \<Longrightarrow> chars_from (Suc i) (b[Suc i := x @ b ! Suc i]) = length x + chars_from (Suc i) b"
proof -
  assume a: "Suc i < length b"
  then have "drop (Suc i) b = b ! Suc i # drop (Suc (Suc i)) b"
    by (simp add: Cons_nth_drop_Suc)
  moreover have "drop (Suc i) (b[Suc i := x @ b ! Suc i]) = (x @ b ! Suc i) # drop (Suc (Suc i)) b"
    using a by (metis Cons_nth_drop_Suc drop_update_cancel length_list_update lessI nth_list_update_eq)
  ultimately show ?thesis by (simp add: chars_from_def)
qed

lemma chars_from_snoc:
  "Suc i = length b \<Longrightarrow> chars_from (Suc i) (b @ [x]) = length x + chars_from (Suc i) b"
  by (simp add: chars_from_def)

lemma reflow_while_length:
  "reflow_while i c b = (c', b') \<Longrightarrow> length b \<le> length b'"
proof (induction i c b rule: reflow_while.induct)
  case (1 i current buffer)
  show ?case
  proof (cases "length current > MAX_CHARS_PER_PARA \<and> 1 < length (splitIntoSentences current)")
    case False
    then show ?thesis using 1(2) by (simp add: reflow_while_stop)
  next
    case True
    let ?b = "if i + 1 < length buffer
        then buffer[i + 1 := last (splitIntoSentences current) @ buffer ! (i + 1)]
        else buffer @ [last (splitIntoSentences current)]"
    have "reflow_while i (concat (butlast (splitIntoSentences current))) ?b = (c', b')"
      using True 1(2) by (simp add: reflow_while_move)
    then have "length ?b \<le> length b'"
      using True by (intro 1(1)[OF _ refl _ refl refl refl]) auto
    then show ?thesis by (auto split: if_splits)
  qed
qed

lemma reflow_while_chars:
  "reflow_while i c b = (c', b') \<Longrightarrow> i < length b \<Longrightarrow>
     chars_from (Suc i) b' + length c' \<le> chars_from (Suc i) b + length c"
proof (induction i c b rule: reflow_while.induct)
  case (1 i current buffer)
  show ?case
  proof (cases "length current > MAX_CHARS_PER_PARA \<and> 1 < length (splitIntoSentences current)")
    case False
    then show ?thesis using 1(2) by (simp add: reflow_while_stop)
  next
    case True
    let ?l = "last (splitIntoSentences current)"
    let ?r = "concat (butlast (splitIntoSentences current))"
    let ?b = "if i + 1 < length buffer then buffer[i + 1 := ?l @ buffer ! (i + 1)] else buffer @ [?l]"
    have rw: "reflow_while i ?r ?b = (c', b')"
      using True 1(2) by (simp add: reflow_while_move)
    have "i < length ?b" using 1(3) by auto
    with rw have "chars_from (Suc i) b' + length c' \<le> chars_from (Suc i) ?b + length ?r"
      using True by (intro 1(1)[OF _ refl _ refl refl refl]) auto
    moreover have "chars_from (Suc i) ?b = length ?l + chars_from (Suc i) buffer"
      using 1(3) by (cases "Suc i < length buffer") (auto simp: chars_from_update chars_from_snoc)
    moreover have "length ?r + length ?l \<le> length current"
      using True by (intro tail_move_shortens(1)) simp
    ultimately show ?thesis by linarith
  qed
qed

lemma reflow_while_nonempty:
  "reflow_while i c b = (c', b') \<Longrightarrow> c \<noteq> [] \<Longrightarrow> c' \<noteq> []"
proof (induction i c b rule: reflow_while.induct)
  case (1 i current buffer)
  show ?case
  proof (cases "length current > MAX_CHARS_PER_PARA \<and> 1 < length (splitIntoSentences current)")
    case False
    then show ?thesis using 1(2,3) by (simp add: reflow_while_stop)
  next
    case True
    let ?l = "last (splitIntoSentences current)"
    let ?r = "concat (butlast (splitIntoSentences current))"
    let ?b = "if i + 1 < length buffer then buffer[i + 1 := ?l @ buffer ! (i + 1)] else buffer @ [?l]"
    have rw: "reflow_while i ?r ?b = (c', b')"
      using True 1(2) by (simp add: reflow_while_move)
    have "?r \<noteq> []" using True by (intro tail_move_shortens(3)) simp
    with rw show ?thesis
      using True by (intro 1(1)[OF _ refl _ refl refl refl]) auto
  qed
qed

lemma reflow_while_same_or_nonempty:
  assumes "reflow_while i c b = (c', b')"
  shows "(c' = c \<and> b' = b) \<or> c' \<noteq> []"
proof (cases "length c > MAX_CHARS_PER_PARA \<and> 1 < length (splitIntoSentences c)")
  case False
  then show ?thesis using assms by (simp add: reflow_while_stop)
next
  case True
  let ?l = "last (splitIntoSentences c)"
  let ?r = "concat (butlast (splitIntoSentences c))"
  let ?b = "if i + 1 < length b then b[i + 1 := ?l @ b ! (i + 1)] else b @ [?l]"
  have rw: "reflow_while i ?r ?b = (c', b')"
    using True assms by (simp add: reflow_while_move)
  have "?r \<noteq> []" using True by (intro tail_move_shortens(3)) simp
  with rw have "c' \<noteq> []" by (rule reflow_while_nonempty)
  then show ?thesis ..
qed

lemma chars_from_Suc: "i < length b \<Longrightarrow> chars_from i b = length (b ! i) + chars_from (Suc i) b"
  by (simp add: chars_from_def flip: Cons_nth_drop_Suc)

text \<open>
  The outer \<open>for\<close> loop, whose bound \<open>buffer.length\<close> is read again at every round:
  the buffer may have grown by a slot.
\<close>

function reflow_outer :: "nat \<Rightarrow> jsstring list \<Rightarrow> jsstring list \<Rightarrow> jsstring list" where
  "reflow_outer i buffer refined =
     (if i < length buffer then
        let current = buffer ! i in
        if startsWith hash current then reflow_outer (i + 1) buffer (refined @ [current])
        else
          let (current', buffer') = reflow_while i current buffer
          in reflow_outer (i + 1) buffer' (refined @ [current'])
      else refined)"
  by pat_completeness auto
termination
proof (relation "(\<lambda>(i, buffer, refined). chars_from i buffer) <*mlex*>
    measure (\<lambda>(i, buffer, refined). length buffer - i)")
  show "wf ((\<lambda>(i, buffer, refined). chars_from i buffer) <*mlex*>
    measure (\<lambda>(i, buffer, refined). length buffer - i))"
    by (simp add: wf_mlex)
next
  fix i :: nat and buffer refined :: "jsstring list" and current
  assume "i < length buffer"
  then show "((i + 1, buffer, refined @ [current]), (i, buffer, refined))
    \<in> (\<lambda>(i, buffer, refined). chars_from i buffer) <*mlex*>
      measure (\<lambda>(i, buffer, refined). length buffer - i)"
    by (intro mlex_leq) (auto simp: chars_from_Suc)
next
  fix i :: nat and buffer refined :: "jsstring list" and current x current' buffer'
  assume i: "i < length buffer" and cur: "current = buffer ! i"
    and x: "x = reflow_while i current buffer" "(current', buffer') = x"
  then have rw: "reflow_while i (buffer ! i) buffer = (current', buffer')" by simp
  note ch = reflow_while_chars[OF rw i] and len = reflow_while_length[OF rw]
  from reflow_while_same_or_nonempty[OF rw]
  show "((i + 1, buffer', refined @ [current']), (i, buffer, refined))
    \<in> (\<lambda>(i, buffer, refined). chars_from i buffer) <*mlex*>
      measure (\<lambda>(i, buffer, refined). length buffer - i)"
  proof
    assume "current' = buffer ! i \<and> buffer' = buffer"
    then show ?thesis using i by (intro mlex_leq) (auto simp: chars_from_Suc)
  next
    assume "current' \<noteq> []"
    then have "0 < length current'" by simp
    with ch have "chars_from (Suc i) buffer' < length (buffer ! i) + chars_from (Suc i) buffer"
      by linarith
    then show ?thesis using i by (intro mlex_less) (simp add: chars_from_Suc)
  qed
qed

declare reflow_outer.simps [simp del]

definition reflowContent :: "jsstring list \<Rightarrow> jsstring list" where
  "reflowContent content = reflow_outer 0 content []"

text \<open>
  The same two loops with non-termination as a value: \<open>None\<close> stands for a loop that
  never returns.  Nothing in either loop raises: every read \<open>buffer[i]\<close> and
  \<open>buffer[i + 1]\<close> is guarded by the length checked just before it.
\<close>

partial_function (option) reflow_while_opt ::
  "nat \<Rightarrow> jsstring \<Rightarrow> jsstring list \<Rightarrow> (jsstring \<times> jsstring list) option" where
  "reflow_while_opt i current buffer =
     (if length current > MAX_CHARS_PER_PARA then
        let sentences = splitIntoSentences current in
        if length sentences \<le> 1 then Some (current, buffer)
        else
          let lastSentence = last sentences;
              remainder = concat (butlast sentences);
              buffer' = (if i + 1 < length buffer
                         then buffer[i + 1 := lastSentence @ buffer ! (i + 1)]
                         else buffer @ [lastSentence])
          in reflow_while_opt i remainder buffer'
      else Some (current, buffer))"

partial_function (option) reflow_outer_opt ::
  "nat \<Rightarrow> jsstring list \<Rightarrow> jsstring list \<Rightarrow> jsstring list option" where
  "reflow_outer_opt i buffer refined =
     (if i < length buffer then
        let current = buffer ! i in
        if startsWith hash current then reflow_outer_opt (i + 1) buffer (refined @ [current])
        else
          Option.bind (reflow_while_opt i current buffer)
            (\<lambda>r. reflow_outer_opt (i + 1) (snd r) (refined @ [fst r]))
      else Some refined)"

definition reflowContent_opt :: "jsstring list \<Rightarrow> jsstring list option" where
  "reflowContent_opt content = reflow_outer_opt 0 content []"

section \<open>The paginator\<close>

text \<open>
  \<open>Math.ceil(len / CHARS_PER_LINE) + 1\<close>: the quotient of two integers below \<open>2^53\<close> is
  rounded to a double that is an integer only when the quotient is one, so the result
  is the exact ceiling, written here with integer division.
\<close>

definition getLineCost :: "jsstring \<Rightarrow> int" where
  "getLineCost text =
     (if startsWith (ascii ''## '') text then 3
      else if startsWith (ascii ''### '') text then 2
      else if trim text = [] then 0
      else
        let len = int (length text)
        in (len + CHARS_PER_LINE - 1) div CHARS_PER_LINE + 1)"

text \<open>
  The state of the loop over \<open>reflowedContent\<close>: the pages pushed so far for this
  slide, the chunk being filled and its running total.  A pushed chunk is never written
  again: \<open>currentChunk\<close> is bound to a fresh array right after every push.
\<close>

record pager =
  pages :: "jsstring list list"
  currentChunk :: "jsstring list"
  currentLinesUsed :: int

definition paginate_step :: "pager \<Rightarrow> jsstring \<Rightarrow> pager" where
  "paginate_step st paragraph =
     (let cost = getLineCost paragraph in
      if currentLinesUsed st + cost \<le> MAX_LINES_PER_PAGE then
        st\<lparr>currentChunk := currentChunk st @ [paragraph],
           currentLinesUsed := currentLinesUsed st + cost\<rparr>
      else
        let remainingLines = MAX_LINES_PER_PAGE - currentLinesUsed st in
        if startsWith hash paragraph then
          \<lparr>pages = (if length (currentChunk st) > 0 then pages st @ [currentChunk st]
                    else pages st),
           currentChunk = [paragraph],
           currentLinesUsed = cost\<rparr>
        else if remainingLines \<le> 1 then
          \<lparr>pages = pages st @ [currentChunk st],
           currentChunk = [paragraph],
           currentLinesUsed = cost\<rparr>
        else
          let availableTextLines = remainingLines - 1;
              maxChars = availableTextLines * CHARS_PER_LINE;
              part1 = slice paragraph 0 maxChars;
              part2 = slice_from paragraph maxChars
          in \<lparr>pages = pages st @ [currentChunk st @ [part1]],
              currentChunk = [part2],
              currentLinesUsed = getLineCost part2\<rparr>)"

definition pager_init :: pager where
  "pager_init = \<lparr>pages = [], currentChunk = [], currentLinesUsed = 0\<rparr>"

text \<open>The flush after the loop: a non-empty last chunk is the last page.\<close>

definition pager_finish :: "pager \<Rightarrow> jsstring list list" where
  "pager_finish st =
     (if length (currentChunk st) > 0 then pages st @ [currentChunk st] else pages st)"

definition paginateContent :: "jsstring list \<Rightarrow> jsstring list list" where
  "paginateContent reflowedContent = pager_finish (foldl paginate_step pager_init reflowedContent)"

text \<open>The estimated line cost of a page.\<close>

definition pageCost :: "jsstring list \<Rightarrow> int" where
  "pageCost page = sum_list (map getLineCost page)"

section \<open>Slides\<close>

datatype SlideType = Cover | Content | Promo

datatype CoverStyle = Classic | Immersive | Glass | Frame

text \<open>\<open>SlideData\<close>; an optional field that is absent or \<open>undefined\<close> is \<open>None\<close>.\<close>

record SlideData =
  slideId :: jsstring
  slideType :: SlideType
  title :: jsstring
  content :: "jsstring list"
  subtitle :: "jsstring option"
  category :: "jsstring option"
  tags :: "jsstring list option"
  pageNumber :: "nat option"
  totalPages :: "nat option"
  backgroundImage :: "jsstring option"
  titleFontSize :: "nat option"
  coverStyle :: "CoverStyle option"

text \<open>
  The body of \<open>generatedData.forEach\<close>: a slide that is not a content slide, or has no
  paragraphs, is pushed as it is; otherwise one copy of the slide per page
  (\<open>{ ...slide, content: currentChunk }\<close>).
\<close>

definition paginateSlide :: "SlideData \<Rightarrow> SlideData list" where
  "paginateSlide slide =
     (if slideType slide \<noteq> Content \<or> length (content slide) = 0 then [slide]
      else map (\<lambda>chunk. slide\<lparr>content := chunk\<rparr>)
             (paginateContent (reflowContent (content slide))))"

definition paginatedSlides :: "SlideData list \<Rightarrow> SlideData list" where
  "paginatedSlides generatedData = concat (map paginateSlide generatedData)"

subsection \<open>The finishing pass\<close>

text \<open>\<open>${n}\<close> in a template string, for a non-negative integer: its decimal digits.\<close>

function decimal :: "nat \<Rightarrow> jsstring" where
  "decimal n = (if n < 10 then [of_nat (48 + n)] else decimal (n div 10) @ [of_nat (48 + n mod 10)])"
  by pat_completeness auto
termination
  by (relation "measure (\<lambda>n. n)") auto

declare decimal.simps [simp del]

text \<open>\<open>a || b\<close> on an optional string: \<open>undefined\<close> and the empty string are falsy.\<close>

definition or_string :: "jsstring option \<Rightarrow> jsstring \<Rightarrow> jsstring" where
  "or_string a b = (case a of None \<Rightarrow> b | Some s \<Rightarrow> if s = [] then b else s)"

definition coverCategory :: "SlideData list \<Rightarrow> jsstring" where
  "coverCategory finalData =
     or_string (case find (\<lambda>s. slideType s = Cover) finalData of
                  None \<Rightarrow> None | Some s \<Rightarrow> category s)
       (ascii ''Knowledge System'')"

definition defaultBackground :: jsstring where
  "defaultBackground = ascii
     ''https://images.unsplash.com/photo-1618005182384-a83a8bd57fbe?q=80&w=600&auto=format&fit=crop''"

text \<open>The default tags, two four-character Chinese strings, as code units.\<close>

definition defaultTags :: "jsstring list" where
  "defaultTags = [[0x5E72, 0x8D27, 0x6EE1, 0x6EE1], [0x5EFA, 0x8BAE, 0x6536, 0x85CF]]"

text \<open>
  The function mapped over \<open>finalData\<close>; \<open>now\<close> is what \<open>Date.now()\<close> returns in this
  round.  An array is truthy even when empty, so only absent tags get the default.
\<close>

definition finishSlide :: "nat \<Rightarrow> nat \<Rightarrow> jsstring \<Rightarrow> nat \<Rightarrow> SlideData \<Rightarrow> SlideData" where
  "finishSlide now totalContentSlides coverCat index slide =
     slide\<lparr>slideId := ascii ''slide-'' @ decimal now @ ascii ''-'' @ decimal index,
           pageNumber := Some (index + 1),
           totalPages := Some totalContentSlides,
           category := Some (or_string (category slide) coverCat),
           backgroundImage := (if slideType slide = Cover then Some defaultBackground else None),
           tags := Some (case tags slide of None \<Rightarrow> defaultTags | Some t \<Rightarrow> t),
           titleFontSize := (if slideType slide = Cover then Some 48 else None),
           coverStyle := (if slideType slide = Cover then Some Classic else None)\<rparr>"

definition finishingPass :: "(nat \<Rightarrow> nat) \<Rightarrow> SlideData list \<Rightarrow> SlideData list" where
  "finishingPass now finalData =
     (let totalContentSlides = length finalData;
          coverCat = coverCategory finalData
      in map (\<lambda>(index, slide). finishSlide (now index) totalContentSlides coverCat index slide)
           (enumerate 0 finalData))"

text \<open>What \<open>generateSlidesFromText\<close> makes of the server's answer.\<close>

definition generateSlides :: "(nat \<Rightarrow> nat) \<Rightarrow> SlideData list \<Rightarrow> SlideData list" where
  "generateSlides now generatedData = finishingPass now (paginatedSlides generatedData)"

subsection \<open>reindexSlides\<close>

text \<open>
  The \<open>map\<close> of \<open>reindexSlides\<close> with its counter \<open>contentIndex\<close>, which is incremented
  before it is used.
\<close>

fun reindex_from :: "nat \<Rightarrow> nat \<Rightarrow> SlideData list \<Rightarrow> SlideData list" where
  "reindex_from totalContent contentIndex [] = []"
| "reindex_from totalContent contentIndex (slide # rest) =
     (if slideType slide = Cover then
        slide\<lparr>totalPages := Some totalContent\<rparr> # reindex_from totalContent contentIndex rest
      else
        slide\<lparr>pageNumber := Some (contentIndex + 1), totalPages := Some totalContent\<rparr>
          # reindex_from totalContent (contentIndex + 1) rest)"

definition reindexSlides :: "SlideData list \<Rightarrow> SlideData list" where
  "reindexSlides currentSlides =
     (let contentSlides = filter (\<lambda>s. slideType s \<noteq> Cover) currentSlides;
          totalContent = length contentSlides
      in reindex_from totalContent 0 currentSlides)"

section \<open>The server's paragraphs\<close>

definition newline :: jschar where
  "newline = 0x0A"

text \<open>
  \<open>text.split(/\n+/)\<close>: the search for a separator goes left to right; at the first
  newline found the piece read so far is emitted and the whole run of newlines is the
  separator.  What is left at the end is the last piece, so the empty text gives one
  empty piece.
\<close>

function split_newlines :: "jsstring \<Rightarrow> jsstring \<Rightarrow> jsstring list" where
  "split_newlines piece [] = [piece]"
| "split_newlines piece (c # cs) =
     (if c = newline then piece # split_newlines [] (dropWhile (\<lambda>x. x = newline) cs)
      else split_newlines (piece @ [c]) cs)"
  by pat_completeness auto
termination
  by (relation "measure (\<lambda>(piece, cs). length cs)")
    (auto simp: length_dropWhile_le less_Suc_eq_le)

definition rawParagraphs :: "jsstring \<Rightarrow> jsstring list" where
  "rawParagraphs text = filter (\<lambda>line. length (trim line) > 0) (split_newlines [] text)"

text \<open>
  The slides the server answers with: one cover slide and one content slide per
  paragraph, each wrapping that paragraph alone.
\<close>

definition coverSlide ::
  "jsstring \<Rightarrow> jsstring \<Rightarrow> jsstring \<Rightarrow> jsstring list \<Rightarrow> jsstring \<Rightarrow> SlideData" where
  "coverSlide coverTitle coverSubtitle coverCat coverTags quote =
     \<lparr>slideId = [], slideType = Cover, title = coverTitle, content = [quote],
      subtitle = Some coverSubtitle, category = Some coverCat, tags = Some coverTags,
      pageNumber = None, totalPages = None, backgroundImage = None,
      titleFontSize = None, coverStyle = None\<rparr>"

definition contentSlide :: "jsstring \<Rightarrow> jsstring \<Rightarrow> SlideData" where
  "contentSlide coverCat para =
     \<lparr>slideId = [], slideType = Content, title = [], content = [para],
      subtitle = None, category = Some coverCat, tags = None,
      pageNumber = None, totalPages = None, backgroundImage = None,
      titleFontSize = None, coverStyle = None\<rparr>"

text \<open>
  The metadata object the route works with (the first element of the model's answer,
  or \<open>{}\<close>): every field may be absent.
\<close>

record metadata =
  metaTitle :: "jsstring option"
  metaSubtitle :: "jsstring option"
  metaCategory :: "jsstring option"
  metaTags :: "jsstring list option"
  metaQuote :: "jsstring option"

text \<open>
  The two error answers of the route: status 400 when the request has no text, status 500
  when anything in the handler throws.
\<close>

datatype apiError = TextRequired | InternalError

text \<open>
  The handler of \<open>POST /api/generate\<close>.  The fields \<open>text\<close>, \<open>title\<close> and \<open>subtitle\<close> of the
  request body may be absent; \<open>!text\<close> holds of an absent and of an empty text.  The call
  of the remote model is a parameter: \<open>None\<close> when it throws, otherwise the metadata.
  \<open>rawParagraphs[0]\<close> is \<open>undefined\<close> when there is no paragraph, and
  \<open>coverSlide.category\<close>, which every content slide copies, is \<open>coverCat\<close>.  The fields
  of the body and of the metadata are taken at the types the client sends and the
  prompt asks for: strings, and a list of strings for the tags.
\<close>

definition apiGenerate ::
  "jsstring option \<Rightarrow> jsstring option \<Rightarrow> jsstring option \<Rightarrow> metadata option
     \<Rightarrow> apiError + SlideData list" where
  "apiGenerate text reqTitle reqSubtitle aiResult =
     (case text of
        None \<Rightarrow> Inl TextRequired
      | Some t \<Rightarrow>
          if t = [] then Inl TextRequired
          else
            let safeTitle = or_string reqTitle (ascii ''Main Title'');
                safeSubtitle = or_string reqSubtitle (ascii ''Summary'')
            in (case aiResult of
                  None \<Rightarrow> Inl InternalError
                | Some meta \<Rightarrow>
                    let paragraphs = rawParagraphs t;
                        coverCat = or_string (metaCategory meta) (ascii ''Knowledge'');
                        cover = coverSlide
                          (or_string (metaTitle meta) safeTitle)
                          (or_string (metaSubtitle meta) safeSubtitle)
                          coverCat
                          (case metaTags meta of None \<Rightarrow> [[0x5E72, 0x8D27]] | Some ts \<Rightarrow> ts)
                          (or_string (metaQuote meta)
                             (or_string (case paragraphs of [] \<Rightarrow> None | p # ps \<Rightarrow> Some p)
                                (ascii ''Summary'')));
                        contentSlides = map (contentSlide coverCat) paragraphs;
                        finalResult = cover # contentSlides
                    in Inr finalResult))"

section \<open>Predicates of the statements\<close>

text \<open>
  A string that \<open>reflowContent\<close> leaves as it is when its loop reaches it: it is
  heading-marked, or within the character budget, or has fewer than two sentence spans.
\<close>

definition settled :: "jsstring \<Rightarrow> bool" where
  "settled s = (startsWith hash s \<or> length s \<le> MAX_CHARS_PER_PARA
     \<or> length (splitIntoSentences s) < 2)"

text \<open>
  A string that does not begin with a sentence-boundary mark.
\<close>

definition noLeadingMark :: "jsstring \<Rightarrow> bool" where
  "noLeadingMark s = (case s of [] \<Rightarrow> True | c # cs \<Rightarrow> \<not> isBoundary c)"

text \<open>
  A page within the line budget, or a single paragraph that alone exceeds it.
\<close>

definition pageOk :: "jsstring list \<Rightarrow> bool" where
  "pageOk page = (pageCost page \<le> MAX_LINES_PER_PAGE
     \<or> (length page = 1 \<and> MAX_LINES_PER_PAGE < getLineCost (hd page)))"

text \<open>
  On a page, every heading-marked paragraph after the first position fitted the budget
  together with what stands before it.
\<close>

definition midHeadingsFit :: "jsstring list \<Rightarrow> bool" where
  "midHeadingsFit page = (\<forall>k \<in> {1..<length page}.
     startsWith hash (page ! k) \<longrightarrow> pageCost (take (Suc k) page) \<le> MAX_LINES_PER_PAGE)"

text \<open>
  Invariants of the paginator's loop, and the paragraphs and the text its state holds,
  in order.
\<close>

definition pager_inv :: "pager \<Rightarrow> bool" where
  "pager_inv st = (currentLinesUsed st = pageCost (currentChunk st)
     \<and> (\<forall>page \<in> set (pages st). pageOk page \<and> page \<noteq> []) \<and> pageOk (currentChunk st))"

definition pager_mid :: "pager \<Rightarrow> bool" where
  "pager_mid st = ((\<forall>page \<in> set (pages st). midHeadingsFit page) \<and> midHeadingsFit (currentChunk st))"

definition pager_paras :: "pager \<Rightarrow> jsstring list" where
  "pager_paras st = concat (pages st) @ currentChunk st"

definition pager_text :: "pager \<Rightarrow> jsstring" where
  "pager_text st = concat (concat (pages st)) @ concat (currentChunk st)"

text \<open>
  The lines of a text: the pieces between consecutive newline characters.
\<close>

fun lines_from :: "jsstring \<Rightarrow> jsstring \<Rightarrow> jsstring list" where
  "lines_from piece [] = [piece]"
| "lines_from piece (c # cs) =
     (if c = newline then piece # lines_from [] cs else lines_from (piece @ [c]) cs)"

definition text_lines :: "jsstring \<Rightarrow> jsstring list" where
  "text_lines text = lines_from [] text"

text \<open>
  The ingestion as the specification words it: paragraphs are separated by runs of one
  or more blank lines, each paragraph is trimmed, and the empty ones are discarded.
\<close>

fun join_paragraphs :: "jsstring option \<Rightarrow> jsstring list \<Rightarrow> jsstring list" where
  "join_paragraphs cur [] = (case cur of None \<Rightarrow> [] | Some p \<Rightarrow> [p])"
| "join_paragraphs cur (l # ls) =
     (if trim l = [] then
        (case cur of None \<Rightarrow> join_paragraphs None ls | Some p \<Rightarrow> p # join_paragraphs None ls)
      else
        join_paragraphs (Some (case cur of None \<Rightarrow> l | Some p \<Rightarrow> p @ [newline] @ l)) ls)"

definition spec_initial_paragraphs :: "jsstring \<Rightarrow> jsstring list" where
  "spec_initial_paragraphs text =
     filter (\<lambda>p. p \<noteq> []) (map trim (join_paragraphs None (text_lines text)))"

section \<open>Example inputs\<close>

text \<open>
  Forty letters \<open>a\<close>, a full stop and forty letters \<open>b\<close>: 81 code units, two sentence
  spans; the same after an ellipsis of three full stops; two lines, the second indented;
  three paragraphs separated by an empty and a blank line; a metadata object without
  any field.
\<close>

definition twoSentences :: jsstring where
  "twoSentences = replicate 40 0x61 @ [0x2E] @ replicate 40 0x62"

definition leadingEllipsis :: jsstring where
  "leadingEllipsis = ascii ''...'' @ twoSentences"

definition twoLines :: jsstring where
  "twoLines = ascii ''a'' @ [newline] @ ascii '' b''"

definition threeParagraphs :: jsstring where
  "threeParagraphs =
     ascii ''a'' @ [newline, newline] @ ascii '' b'' @ [newline, 0x20, newline] @ ascii ''c''"

definition noMetadata :: metadata where
  "noMetadata = \<lparr>metaTitle = None, metaSubtitle = None, metaCategory = None,
     metaTags = None, metaQuote = None\<rparr>"

text \<open>
  A cover and two short content slides; a server answer with a paragraph that reflow splits.
\<close>

definition threeSlides :: "SlideData list" where
  "threeSlides =
     [coverSlide (ascii ''T'') (ascii ''S'') (ascii ''C'') [] (ascii ''Q''),
      contentSlide (ascii ''C'') (ascii ''one''),
      contentSlide (ascii ''C'') (ascii ''two'')]"

definition serverAnswer :: "SlideData list" where
  "serverAnswer =
     [coverSlide (ascii ''T'') (ascii ''S'') (ascii ''C'') [] (ascii ''Q''),
      contentSlide (ascii ''C'') twoSentences,
      contentSlide (ascii ''C'') (ascii ''two'')]"

section \<open>Basic facts about strings and costs\<close>

lemma slice_take: "0 \<le> k \<Longrightarrow> slice s 0 k = take (nat k) s"
  by (simp add: slice_def slice_pos_def min_def)

lemma slice_from_drop: "0 \<le> k \<Longrightarrow> slice_from s k = drop (nat k) s"
  by (simp add: slice_from_def slice_pos_def min_def)

lemma ascii_h2: "ascii ''## '' = [0x23, 0x23, 0x20]"
  by (simp add: ascii_def)

lemma ascii_h3: "ascii ''### '' = [0x23, 0x23, 0x23, 0x20]"
  by (simp add: ascii_def)

lemma startsWith_Cons: "startsWith (a # p) s = (\<exists>t. s = a # t \<and> startsWith p t)"
  by (cases s) (auto simp: startsWith_def)

lemma startsWith_Nil [simp]: "startsWith [] s"
  by (simp add: startsWith_def)

lemma startsWith_hash: "startsWith hash s = (\<exists>t. s = 0x23 # t)"
  by (simp add: hash_def startsWith_Cons)

lemma startsWith_hash_take: "0 < n \<Longrightarrow> startsWith hash (take n p) = startsWith hash p"
  by (cases p; cases n) (auto simp: startsWith_hash)

lemma not_heading_cost:
  "\<not> startsWith hash s \<Longrightarrow>
     getLineCost s = (if trim s = [] then 0 else (int (length s) + CHARS_PER_LINE - 1) div CHARS_PER_LINE + 1)"
  by (auto simp: getLineCost_def ascii_h2 ascii_h3 startsWith_Cons startsWith_hash Let_def)

lemma overflow_length:
  assumes "\<not> startsWith hash paragraph" "r < getLineCost paragraph" "2 \<le> r"
  shows "(r - 1) * CHARS_PER_LINE < int (length paragraph)"
proof -
  have "getLineCost paragraph = (int (length paragraph) + 21) div 22 + 1"
    using assms by (auto simp: not_heading_cost CHARS_PER_LINE_def split: if_splits)
  with assms(2) have "r \<le> (int (length paragraph) + 21) div 22" by simp
  then show ?thesis unfolding CHARS_PER_LINE_def by presburger
qed

lemma cost_part1:
  assumes "\<not> startsWith hash p" "2 \<le> r" "nat ((r - 1) * CHARS_PER_LINE) < length p"
  shows "getLineCost (take (nat ((r - 1) * CHARS_PER_LINE)) p) \<le> r"
proof -
  let ?m = "nat ((r - 1) * CHARS_PER_LINE)"
  have m: "0 < ?m" using assms(2) by (simp add: CHARS_PER_LINE_def)
  then have nh: "\<not> startsWith hash (take ?m p)" using assms(1) by (simp add: startsWith_hash_take)
  have "int (length (take ?m p)) = (r - 1) * 22"
    using assms(2,3) by (simp add: CHARS_PER_LINE_def)
  then have "(int (length (take ?m p)) + CHARS_PER_LINE - 1) div CHARS_PER_LINE + 1 = r"
    unfolding CHARS_PER_LINE_def by presburger
  then show ?thesis
    using assms(2) by (simp only: not_heading_cost[OF nh] split: if_splits) auto
qed

lemma trim_Nil [simp]: "trim [] = []"
  by (simp add: trim_def)

lemma pageCost_append [simp]: "pageCost (xs @ ys) = pageCost xs + pageCost ys"
  by (simp add: pageCost_def)

lemma pageCost_Nil [simp]: "pageCost [] = 0"
  by (simp add: pageCost_def)

lemma pageCost_single [simp]: "pageCost [p] = getLineCost p"
  by (simp add: pageCost_def)

section \<open>The reflow loops return\<close>

lemma reflow_while_opt_total: "reflow_while_opt i c b = Some (reflow_while i c b)"
proof (induction i c b rule: reflow_while.induct)
  case (1 i current buffer)
  show ?case
  proof (cases "length current > MAX_CHARS_PER_PARA \<and> 1 < length (splitIntoSentences current)")
    case False
    then show ?thesis
      by (subst reflow_while_opt.simps) (auto simp: reflow_while_stop Let_def)
  next
    case True
    let ?l = "last (splitIntoSentences current)"
    let ?r = "concat (butlast (splitIntoSentences current))"
    let ?b = "if i + 1 < length buffer then buffer[i + 1 := ?l @ buffer ! (i + 1)] else buffer @ [?l]"
    have IH: "reflow_while_opt i ?r ?b = Some (reflow_while i ?r ?b)"
      using True by (intro 1[OF _ refl _ refl refl refl]) auto
    have "reflow_while_opt i current buffer = reflow_while_opt i ?r ?b"
      using True by (subst reflow_while_opt.simps) (simp add: Let_def)
    then show ?thesis using True IH by (simp add: reflow_while_move)
  qed
qed

lemma reflow_outer_heading:
  "i < length buffer \<Longrightarrow> startsWith hash (buffer ! i) \<Longrightarrow>
     reflow_outer i buffer refined = reflow_outer (i + 1) buffer (refined @ [buffer ! i])"
  by (subst reflow_outer.simps) (simp add: Let_def)

lemma reflow_outer_para:
  "i < length buffer \<Longrightarrow> \<not> startsWith hash (buffer ! i) \<Longrightarrow>
     reflow_outer i buffer refined =
       reflow_outer (i + 1) (snd (reflow_while i (buffer ! i) buffer))
         (refined @ [fst (reflow_while i (buffer ! i) buffer)])"
  by (subst reflow_outer.simps) (simp add: Let_def case_prod_unfold)

lemma reflow_outer_done:
  "\<not> i < length buffer \<Longrightarrow> reflow_outer i buffer refined = refined"
  by (subst reflow_outer.simps) simp

lemma reflow_outer_opt_total: "reflow_outer_opt i b r = Some (reflow_outer i b r)"
proof (induction i b r rule: reflow_outer.induct)
  case (1 i buffer refined)
  show ?case
  proof (cases "i < length buffer")
    case False
    then show ?thesis
      by (subst reflow_outer_opt.simps) (simp add: reflow_outer_done)
  next
    case i: True
    show ?thesis
    proof (cases "startsWith hash (buffer ! i)")
      case True
      have "reflow_outer_opt (i + 1) buffer (refined @ [buffer ! i])
          = Some (reflow_outer (i + 1) buffer (refined @ [buffer ! i]))"
        using i True by (intro 1(1)[OF _ refl]) auto
      moreover have "reflow_outer_opt i buffer refined
          = reflow_outer_opt (i + 1) buffer (refined @ [buffer ! i])"
        using i True by (subst reflow_outer_opt.simps) (simp add: Let_def)
      ultimately show ?thesis using i True by (simp add: reflow_outer_heading)
    next
      case False
      obtain c' b' where rw: "reflow_while i (buffer ! i) buffer = (c', b')"
        by (cases "reflow_while i (buffer ! i) buffer")
      have "reflow_outer_opt (i + 1) b' (refined @ [c']) = Some (reflow_outer (i + 1) b' (refined @ [c']))"
        using i False rw by (intro 1(2)[OF _ refl _ refl]) auto
      moreover have "reflow_outer_opt i buffer refined = reflow_outer_opt (i + 1) b' (refined @ [c'])"
        using i False rw by (subst reflow_outer_opt.simps) (simp add: Let_def reflow_while_opt_total)
      ultimately show ?thesis using i False rw by (simp add: reflow_outer_para)
    qed
  qed
qed

text \<open>
  Claim C9.  On every input the inner loop and \<open>reflowContent\<close> return a value (the
  models in which a loop that runs forever is \<open>None\<close> give \<open>Some\<close> result, the one of the
  total functions), and the paginator, a loop over the fixed list that \<open>reflowContent\<close>
  returned, then returns its pages.  No step of either routine can raise.  The inner
  loop ends because a tail move leaves a strictly shorter \<open>current\<close>; the outer loop ends
  because the code units held from slot \<open>i\<close> on never increase and the slots left
  decrease (the termination proof of \<open>reflow_outer\<close>).
\<close>

theorem reflow_terminates:
  "reflow_while_opt i current buffer = Some (reflow_while i current buffer)
   \<and> reflowContent_opt paragraphs = Some (reflowContent paragraphs)
   \<and> map_option paginateContent (reflowContent_opt paragraphs)
       = Some (paginateContent (reflowContent paragraphs))
   \<and> (MAX_CHARS_PER_PARA < length current \<and> 1 < length (splitIntoSentences current) \<longrightarrow>
        length (concat (butlast (splitIntoSentences current))) < length current)"
proof -
  have "length (concat (butlast (splitIntoSentences current))) < length current"
    if "1 < length (splitIntoSentences current)"
    using tail_move_shortens(1,2)[OF that] by (cases "last (splitIntoSentences current)") auto
  then show ?thesis
    by (simp add: reflow_while_opt_total reflowContent_opt_def reflowContent_def reflow_outer_opt_total)
qed

theorem reflow_terminates_witness:
  "reflowContent_opt [[]] = Some [[]]
   \<and> reflowContent_opt [replicate 100 0x61] = Some [replicate 100 0x61]
   \<and> reflowContent_opt [ascii ''short'', twoSentences]
       = Some [ascii ''short'', replicate 40 0x61 @ [0x2E], replicate 40 0x62]
   \<and> map_option paginateContent (reflowContent_opt [[]]) = Some [[[]]]
   \<and> MAX_CHARS_PER_PARA < length twoSentences
   \<and> 1 < length (splitIntoSentences twoSentences)
   \<and> length (concat (butlast (splitIntoSentences twoSentences))) < length twoSentences"
proof -
  have e1: "reflowContent [[]] = [[]]"
    by code_simp
  have e2: "reflowContent [replicate 100 0x61] = [replicate 100 0x61]"
    by code_simp
  have e3: "reflowContent [ascii ''short'', twoSentences]
      = [ascii ''short'', replicate 40 0x61 @ [0x2E], replicate 40 0x62]"
    by code_simp
  have e4: "paginateContent [[]] = [[[]]]"
    by code_simp
  have s2: "splitIntoSentences twoSentences = [replicate 40 0x61 @ [0x2E], replicate 40 0x62]"
    by code_simp
  have len: "MAX_CHARS_PER_PARA < length twoSentences"
    by (simp add: MAX_CHARS_PER_PARA_def twoSentences_def)
  show ?thesis
    using reflow_terminates[of 0 "[]" "[]" "[[]]"]
      reflow_terminates[of 0 "[]" "[]" "[replicate 100 0x61]"]
      reflow_terminates[of 0 twoSentences "[]" "[ascii ''short'', twoSentences]"]
      len
    by (simp add: e1 e2 e3 e4 s2)
qed

section \<open>Reflow is idempotent\<close>

lemma reflow_while_settled:
  "reflow_while i c b = (c', b') \<Longrightarrow>
     length c' \<le> MAX_CHARS_PER_PARA \<or> length (splitIntoSentences c') < 2"
proof (induction i c b rule: reflow_while.induct)
  case (1 i current buffer)
  show ?case
  proof (cases "length current > MAX_CHARS_PER_PARA \<and> 1 < length (splitIntoSentences current)")
    case False
    then have "c' = current" using 1(2) by (simp add: reflow_while_stop)
    with False show ?thesis by auto
  next
    case True
    let ?l = "last (splitIntoSentences current)"
    let ?r = "concat (butlast (splitIntoSentences current))"
    let ?b = "if i + 1 < length buffer then buffer[i + 1 := ?l @ buffer ! (i + 1)] else buffer @ [?l]"
    have "reflow_while i ?r ?b = (c', b')"
      using True 1(2) by (simp add: reflow_while_move)
    then show ?thesis
      using True by (intro 1(1)[OF _ refl _ refl refl refl]) auto
  qed
qed

lemma reflow_outer_settled:
  "\<forall>s \<in> set r. settled s \<Longrightarrow> \<forall>s \<in> set (reflow_outer i b r). settled s"
proof (induction i b r rule: reflow_outer.induct)
  case (1 i buffer refined)
  show ?case
  proof (cases "i < length buffer")
    case False
    then show ?thesis using 1(3) by (simp add: reflow_outer_done)
  next
    case i: True
    show ?thesis
    proof (cases "startsWith hash (buffer ! i)")
      case True
      have "\<forall>s \<in> set (reflow_outer (i + 1) buffer (refined @ [buffer ! i])). settled s"
        using i True 1(3) by (intro 1(1)[OF _ refl]) (auto simp: settled_def)
      then show ?thesis using i True by (simp add: reflow_outer_heading)
    next
      case False
      obtain c' b' where rw: "reflow_while i (buffer ! i) buffer = (c', b')"
        by (cases "reflow_while i (buffer ! i) buffer")
      have "settled c'" using reflow_while_settled[OF rw] by (auto simp: settled_def)
      then have "\<forall>s \<in> set (reflow_outer (i + 1) b' (refined @ [c'])). settled s"
        using i False rw 1(3) by (intro 1(2)[OF _ refl _ refl]) auto
      then show ?thesis using i False rw by (simp add: reflow_outer_para)
    qed
  qed
qed

lemma reflow_outer_fixed:
  "\<forall>s \<in> set (drop i b). settled s \<Longrightarrow> reflow_outer i b r = r @ drop i b"
proof (induction i b r rule: reflow_outer.induct)
  case (1 i buffer refined)
  show ?case
  proof (cases "i < length buffer")
    case False
    then show ?thesis by (simp add: reflow_outer_done)
  next
    case i: True
    then have d: "drop i buffer = buffer ! i # drop (i + 1) buffer"
      by (simp add: Cons_nth_drop_Suc)
    with 1(3) have st: "settled (buffer ! i)" and rest: "\<forall>s \<in> set (drop (i + 1) buffer). settled s"
      by auto
    show ?thesis
    proof (cases "startsWith hash (buffer ! i)")
      case True
      have "reflow_outer (i + 1) buffer (refined @ [buffer ! i])
          = (refined @ [buffer ! i]) @ drop (i + 1) buffer"
        using i True rest by (intro 1(1)[OF _ refl]) auto
      then show ?thesis using i True d by (simp add: reflow_outer_heading)
    next
      case False
      have rw: "reflow_while i (buffer ! i) buffer = (buffer ! i, buffer)"
        using st False by (intro reflow_while_stop) (auto simp: settled_def)
      have "reflow_outer (i + 1) buffer (refined @ [buffer ! i])
          = (refined @ [buffer ! i]) @ drop (i + 1) buffer"
        using i False rw rest by (intro 1(2)[OF _ refl _ refl]) auto
      then show ?thesis using i False rw d by (simp add: reflow_outer_para)
    qed
  qed
qed

text \<open>
  Claim C4, amended.  Running \<open>reflowContent\<close> on its own output returns that output.
  The reason is not that every fragment is within \<open>MAX_CHARS_PER_PARA\<close>: each output
  fragment is heading-marked, or within the budget, or has fewer than two sentence
  spans, and such a fragment may be longer than the budget.
\<close>

theorem reflow_idempotent:
  "reflowContent (reflowContent paragraphs) = reflowContent paragraphs
   \<and> (\<forall>s \<in> set (reflowContent paragraphs).
        startsWith hash s \<or> length s \<le> MAX_CHARS_PER_PARA \<or> length (splitIntoSentences s) < 2)"
proof -
  have all: "\<forall>s \<in> set (reflowContent paragraphs). settled s"
    unfolding reflowContent_def by (rule reflow_outer_settled) simp
  then have "reflow_outer 0 (reflowContent paragraphs) [] = [] @ drop 0 (reflowContent paragraphs)"
    by (intro reflow_outer_fixed) simp
  then have "reflowContent (reflowContent paragraphs) = reflowContent paragraphs"
    by (simp add: reflowContent_def)
  with all show ?thesis by (simp add: settled_def)
qed

text \<open>
  The claim as stated fails: a paragraph of 100 letters without any boundary mark is an
  output fragment of \<open>reflowContent\<close> and exceeds the budget of 69.
\<close>

theorem reflow_fragment_over_budget:
  "reflowContent [replicate 100 0x61] = [replicate 100 0x61]
   \<and> MAX_CHARS_PER_PARA < length (replicate 100 (0x61 :: jschar))"
proof -
  have "reflowContent [replicate 100 0x61] = [replicate 100 0x61]"
    by code_simp
  then show ?thesis by (simp add: MAX_CHARS_PER_PARA_def)
qed

theorem reflow_idempotent_witness:
  "reflowContent [ascii ''short'', replicate 40 0x61 @ [0x2E], replicate 40 0x62]
     = [ascii ''short'', replicate 40 0x61 @ [0x2E], replicate 40 0x62]
   \<and> length (replicate 40 (0x62 :: jschar)) \<le> MAX_CHARS_PER_PARA"
proof -
  have e3: "reflowContent [ascii ''short'', twoSentences]
      = [ascii ''short'', replicate 40 0x61 @ [0x2E], replicate 40 0x62]"
    by code_simp
  show ?thesis
    using reflow_idempotent[of "[ascii ''short'', twoSentences]"]
    by (simp add: e3 MAX_CHARS_PER_PARA_def)
qed

section \<open>The output of reflowContent depends on the slots still to come\<close>

lemma reflow_while_shift:
  "reflow_while i c b = (c', b') \<Longrightarrow> i < length b \<Longrightarrow>
     reflow_while 0 c (drop i b) = (c', drop i b')"
proof (induction i c b rule: reflow_while.induct)
  case (1 i current buffer)
  show ?case
  proof (cases "length current > MAX_CHARS_PER_PARA \<and> 1 < length (splitIntoSentences current)")
    case False
    then show ?thesis using 1(2) by (simp add: reflow_while_stop)
  next
    case True
    let ?l = "last (splitIntoSentences current)"
    let ?r = "concat (butlast (splitIntoSentences current))"
    let ?b = "if i + 1 < length buffer then buffer[i + 1 := ?l @ buffer ! (i + 1)] else buffer @ [?l]"
    let ?d = "drop i buffer"
    have rw: "reflow_while i ?r ?b = (c', b')"
      using True 1(2) by (simp add: reflow_while_move)
    have "i < length ?b" using 1(3) by auto
    with rw have IH: "reflow_while 0 ?r (drop i ?b) = (c', drop i b')"
      using True by (intro 1(1)[OF _ refl _ refl refl refl]) auto
    have "drop i ?b = (if 0 + 1 < length ?d then ?d[0 + 1 := ?l @ ?d ! (0 + 1)] else ?d @ [?l])"
      using 1(3) by (auto simp: drop_update_swap)
    then have "reflow_while 0 current ?d = reflow_while 0 ?r (drop i ?b)"
      using True by (simp only: reflow_while_move[of current 0 ?d])
    with IH show ?thesis by simp
  qed
qed

lemma reflow_outer_suffix:
  "drop i b = drop j b2 \<Longrightarrow>
     \<exists>ys. reflow_outer i b r = r @ ys \<and> reflow_outer j b2 r2 = r2 @ ys"
proof (induction i b r arbitrary: j b2 r2 rule: reflow_outer.induct)
  case (1 i buffer refined)
  show ?case
  proof (cases "i < length buffer")
    case False
    then have "drop j b2 = []" using 1(3) by simp
    then have "\<not> j < length b2" by simp
    with False show ?thesis by (simp add: reflow_outer_done)
  next
    case i: True
    then have di: "drop i buffer = buffer ! i # drop (i + 1) buffer"
      by (simp add: Cons_nth_drop_Suc)
    have "drop j b2 = buffer ! i # drop (i + 1) buffer"
      using di 1(3) by (simp only:)
    then have "drop j b2 \<noteq> []" by simp
    then have j: "j < length b2" by (cases "j < length b2") auto
    then have dj: "drop j b2 = b2 ! j # drop (j + 1) b2"
      by (simp add: Cons_nth_drop_Suc)
    from di dj 1(3) have same: "b2 ! j = buffer ! i" and rest: "drop (i + 1) buffer = drop (j + 1) b2"
      by simp_all
    show ?thesis
    proof (cases "startsWith hash (buffer ! i)")
      case True
      from 1(1)[OF i refl True rest, of "r2 @ [buffer ! i]"]
      obtain ys where "reflow_outer (i + 1) buffer (refined @ [buffer ! i]) = (refined @ [buffer ! i]) @ ys"
        and "reflow_outer (j + 1) b2 (r2 @ [buffer ! i]) = (r2 @ [buffer ! i]) @ ys"
        by blast
      then have "reflow_outer i buffer refined = refined @ (buffer ! i # ys)
          \<and> reflow_outer j b2 r2 = r2 @ (buffer ! i # ys)"
        using i j True same by (simp add: reflow_outer_heading)
      then show ?thesis by blast
    next
      case False
      obtain c' b' where rw: "reflow_while i (buffer ! i) buffer = (c', b')"
        by (cases "reflow_while i (buffer ! i) buffer")
      obtain c'' b'' where rw2: "reflow_while j (b2 ! j) b2 = (c'', b'')"
        by (cases "reflow_while j (b2 ! j) b2")
      from reflow_while_shift[OF rw i] reflow_while_shift[OF rw2 j] 1(3) same
      have c: "c'' = c'" and d: "drop i b' = drop j b''" by simp_all
      have "drop (i + 1) b' = drop 1 (drop i b')" by simp
      also have "\<dots> = drop (j + 1) b''" unfolding d by simp
      finally have rest': "drop (i + 1) b' = drop (j + 1) b''" .
      from 1(2)[OF i refl False refl rw[symmetric] rest', of "r2 @ [c']"]
      obtain ys where "reflow_outer (i + 1) b' (refined @ [c']) = (refined @ [c']) @ ys"
        and "reflow_outer (j + 1) b'' (r2 @ [c']) = (r2 @ [c']) @ ys"
        by blast
      then have "reflow_outer i buffer refined = refined @ (c' # ys)
          \<and> reflow_outer j b2 r2 = r2 @ (c' # ys)"
        using i j False same rw rw2 c by (simp add: reflow_outer_para)
      then show ?thesis by blast
    qed
  qed
qed

lemma reflow_outer_drop: "reflow_outer i b r = r @ reflowContent (drop i b)"
proof -
  have "drop i b = drop 0 (drop i b)" by simp
  from reflow_outer_suffix[OF this, of r "[]"] show ?thesis
    by (auto simp: reflowContent_def)
qed

lemma reflowContent_Nil: "reflowContent [] = []"
  by (simp add: reflowContent_def reflow_outer_done)

lemma reflowContent_Cons_settled:
  assumes "settled x"
  shows "reflowContent (x # rest) = x # reflowContent rest"
proof -
  have step: "reflow_outer 0 (x # rest) [] = reflow_outer 1 (x # rest) [x]"
  proof (cases "startsWith hash x")
    case True
    then show ?thesis using reflow_outer_heading[of 0 "x # rest" "[]"] by simp
  next
    case False
    have "reflow_while 0 x (x # rest) = (x, x # rest)"
      using assms False by (intro reflow_while_stop) (auto simp: settled_def)
    then show ?thesis using False reflow_outer_para[of 0 "x # rest" "[]"] by simp
  qed
  have "reflowContent (x # rest) = reflow_outer 0 (x # rest) []"
    by (simp only: reflowContent_def)
  also have "\<dots> = reflow_outer 1 (x # rest) [x]"
    by (rule step)
  also have "\<dots> = [x] @ reflowContent (drop 1 (x # rest))"
    by (rule reflow_outer_drop)
  also have "\<dots> = x # reflowContent rest"
    by simp
  finally show ?thesis .
qed

lemma reflowContent_settled_prefix:
  "\<forall>s \<in> set pre. settled s \<Longrightarrow> reflowContent (pre @ post) = pre @ reflowContent post"
  by (induction pre) (auto simp: reflowContent_Cons_settled)

lemma reflow_outer_emit:
  "i < length buffer \<Longrightarrow> \<not> startsWith hash (buffer ! i) \<Longrightarrow>
     reflow_outer i buffer refined =
       refined @ fst (reflow_while i (buffer ! i) buffer)
         # reflowContent (drop (Suc i) (snd (reflow_while i (buffer ! i) buffer)))"
  by (simp add: reflow_outer_para reflow_outer_drop[of "Suc i"])

lemma reflow_outer_heading_emit:
  "i < length buffer \<Longrightarrow> startsWith hash (buffer ! i) \<Longrightarrow>
     reflow_outer i buffer refined = refined @ buffer ! i # reflowContent (drop (Suc i) buffer)"
  by (simp add: reflow_outer_heading reflow_outer_drop[of "Suc i"])

section \<open>The tail move of reflowContent\<close>

text \<open>
  Claim C7.  The inner loop on a slot: it stops at once, leaving \<open>current\<close> and the
  buffer as they are, when \<open>current\<close> is within the budget or has fewer than two sentence
  spans; otherwise, over the budget with at least two spans, one round prepends the last
  span to slot \<open>i + 1\<close>, or appends it as a new last slot when slot \<open>i\<close> is the last, and
  goes on with the earlier spans concatenated.  What the loop leaves in \<open>current\<close> is
  what \<open>reflowContent\<close> emits for the slot, after the output so far and before the reflow
  of the later slots.  So a paragraph that is not heading-marked and has fewer than two
  spans (or is within the budget) is emitted as it is, whatever its length, followed by
  the reflow of the rest; and one that needs a single tail move is emitted as its earlier
  spans, its last span opening the next slot.
\<close>

theorem reflow_tail_move:
  "(length current \<le> MAX_CHARS_PER_PARA \<or> length (splitIntoSentences current) < 2 \<longrightarrow>
      reflow_while i current buffer = (current, buffer))
   \<and> (MAX_CHARS_PER_PARA < length current \<and> 2 \<le> length (splitIntoSentences current) \<longrightarrow>
        reflow_while i current buffer =
          reflow_while i (concat (butlast (splitIntoSentences current)))
            (if i + 1 < length buffer
             then buffer[i + 1 := last (splitIntoSentences current) @ buffer ! (i + 1)]
             else buffer @ [last (splitIntoSentences current)]))
   \<and> (i < length buffer \<and> \<not> startsWith hash (buffer ! i) \<longrightarrow>
        reflow_outer i buffer refined =
          refined @ fst (reflow_while i (buffer ! i) buffer)
            # reflowContent (drop (Suc i) (snd (reflow_while i (buffer ! i) buffer))))
   \<and> (\<not> startsWith hash paragraph
        \<and> (length paragraph \<le> MAX_CHARS_PER_PARA \<or> length (splitIntoSentences paragraph) < 2) \<longrightarrow>
        reflowContent (paragraph # rest) = paragraph # reflowContent rest)
   \<and> (\<not> startsWith hash paragraph \<and> MAX_CHARS_PER_PARA < length paragraph
        \<and> 2 \<le> length (splitIntoSentences paragraph)
        \<and> (length (concat (butlast (splitIntoSentences paragraph))) \<le> MAX_CHARS_PER_PARA
           \<or> length (splitIntoSentences (concat (butlast (splitIntoSentences paragraph)))) < 2) \<longrightarrow>
        reflowContent (paragraph # rest) =
          concat (butlast (splitIntoSentences paragraph))
            # reflowContent (case rest of
                 [] \<Rightarrow> [last (splitIntoSentences paragraph)]
               | next # later \<Rightarrow> (last (splitIntoSentences paragraph) @ next) # later))"
proof (intro conjI impI)
  assume "length current \<le> MAX_CHARS_PER_PARA \<or> length (splitIntoSentences current) < 2"
  then show "reflow_while i current buffer = (current, buffer)"
    by (intro reflow_while_stop) auto
next
  assume "MAX_CHARS_PER_PARA < length current \<and> 2 \<le> length (splitIntoSentences current)"
  then show "reflow_while i current buffer =
          reflow_while i (concat (butlast (splitIntoSentences current)))
            (if i + 1 < length buffer
             then buffer[i + 1 := last (splitIntoSentences current) @ buffer ! (i + 1)]
             else buffer @ [last (splitIntoSentences current)])"
    by (intro reflow_while_move) auto
next
  assume "i < length buffer \<and> \<not> startsWith hash (buffer ! i)"
  then show "reflow_outer i buffer refined =
          refined @ fst (reflow_while i (buffer ! i) buffer)
            # reflowContent (drop (Suc i) (snd (reflow_while i (buffer ! i) buffer)))"
    by (simp add: reflow_outer_emit)
next
  assume a: "\<not> startsWith hash paragraph
        \<and> (length paragraph \<le> MAX_CHARS_PER_PARA \<or> length (splitIntoSentences paragraph) < 2)"
  then have "settled paragraph" by (auto simp: settled_def)
  then show "reflowContent (paragraph # rest) = paragraph # reflowContent rest"
    by (rule reflowContent_Cons_settled)
next
  assume a: "\<not> startsWith hash paragraph \<and> MAX_CHARS_PER_PARA < length paragraph
        \<and> 2 \<le> length (splitIntoSentences paragraph)
        \<and> (length (concat (butlast (splitIntoSentences paragraph))) \<le> MAX_CHARS_PER_PARA
           \<or> length (splitIntoSentences (concat (butlast (splitIntoSentences paragraph)))) < 2)"
  let ?l = "last (splitIntoSentences paragraph)"
  let ?r = "concat (butlast (splitIntoSentences paragraph))"
  let ?b = "if 0 + 1 < length (paragraph # rest)
      then (paragraph # rest)[0 + 1 := ?l @ (paragraph # rest) ! (0 + 1)]
      else (paragraph # rest) @ [?l]"
  have "reflow_while 0 paragraph (paragraph # rest) = reflow_while 0 ?r ?b"
    using a by (intro reflow_while_move) auto
  also have "\<dots> = (?r, ?b)"
    using a by (intro reflow_while_stop) auto
  finally have rw: "reflow_while 0 ((paragraph # rest) ! 0) (paragraph # rest) = (?r, ?b)"
    by simp
  have d: "drop (Suc 0) ?b = (case rest of [] \<Rightarrow> [?l] | next # later \<Rightarrow> (?l @ next) # later)"
    by (cases rest) simp_all
  have "reflowContent (paragraph # rest) = reflow_outer 0 (paragraph # rest) []"
    by (simp only: reflowContent_def)
  also have "\<dots> = [] @ fst (reflow_while 0 ((paragraph # rest) ! 0) (paragraph # rest))
      # reflowContent (drop (Suc 0) (snd (reflow_while 0 ((paragraph # rest) ! 0) (paragraph # rest))))"
    using a by (intro reflow_outer_emit) simp_all
  also have "\<dots> = ?r # reflowContent (drop (Suc 0) ?b)"
    unfolding rw by simp
  finally show "reflowContent (paragraph # rest) =
      ?r # reflowContent (case rest of [] \<Rightarrow> [?l] | next # later \<Rightarrow> (?l @ next) # later)"
    unfolding d .
qed

theorem reflow_tail_move_witness:
  "\<not> startsWith hash twoSentences
   \<and> MAX_CHARS_PER_PARA < length twoSentences
   \<and> splitIntoSentences twoSentences = [replicate 40 0x61 @ [0x2E], replicate 40 0x62]
   \<and> length (replicate 40 0x61 @ [0x2E :: jschar]) \<le> MAX_CHARS_PER_PARA
   \<and> reflow_while 0 (replicate 40 0x61 @ [0x2E]) [twoSentences, replicate 40 0x62]
       = (replicate 40 0x61 @ [0x2E], [twoSentences, replicate 40 0x62])
   \<and> reflow_while 0 twoSentences [twoSentences]
       = (replicate 40 0x61 @ [0x2E], [twoSentences, replicate 40 0x62])
   \<and> reflow_while 0 twoSentences [twoSentences, ascii ''rest'']
       = (replicate 40 0x61 @ [0x2E], [twoSentences, replicate 40 0x62 @ ascii ''rest''])
   \<and> reflowContent [twoSentences] = [replicate 40 0x61 @ [0x2E], replicate 40 0x62]
   \<and> reflowContent [twoSentences, ascii ''rest'']
       = [replicate 40 0x61 @ [0x2E], replicate 40 0x62 @ ascii ''rest'']
   \<and> \<not> startsWith hash (replicate 100 0x61)
   \<and> length (splitIntoSentences (replicate 100 0x61)) < 2
   \<and> reflow_while 0 (replicate 100 0x61) [replicate 100 0x61]
       = (replicate 100 0x61, [replicate 100 0x61])
   \<and> reflowContent [replicate 100 0x61, ascii ''rest''] = [replicate 100 0x61, ascii ''rest'']"
proof -
  let ?a = "replicate 40 0x61 @ [0x2E :: jschar]"
  let ?b = "replicate 40 (0x62 :: jschar)"
  let ?u = "replicate 100 (0x61 :: jschar)"
  have s2: "splitIntoSentences twoSentences = [?a, ?b]"
    by code_simp
  have s1: "splitIntoSentences ?u = [?u]"
    by code_simp
  have len: "MAX_CHARS_PER_PARA < length twoSentences" "length ?a \<le> MAX_CHARS_PER_PARA"
    "length ?b \<le> MAX_CHARS_PER_PARA" "length (ascii ''rest'') \<le> MAX_CHARS_PER_PARA"
    "length (?b @ ascii ''rest'') \<le> MAX_CHARS_PER_PARA"
    by (simp_all add: MAX_CHARS_PER_PARA_def twoSentences_def ascii_def)
  have h: "\<not> startsWith hash ?u" "\<not> startsWith hash twoSentences" "\<not> startsWith hash ?b"
    "\<not> startsWith hash (ascii ''rest'')" "\<not> startsWith hash (?b @ ascii ''rest'')"
    by code_simp+
  have nil: "reflowContent [] = []"
    by (rule reflowContent_Nil)
  have stop: "reflow_while 0 ?a [twoSentences, ?b] = (?a, [twoSentences, ?b])"
    "reflow_while 0 ?a [twoSentences, ?b @ ascii ''rest''] = (?a, [twoSentences, ?b @ ascii ''rest''])"
    using reflow_tail_move[of ?a 0 "[twoSentences, ?b]" "[]" "[]" "[]"]
      reflow_tail_move[of ?a 0 "[twoSentences, ?b @ ascii ''rest'']" "[]" "[]" "[]"] len(2)
    by blast+
  have m1: "reflow_while 0 twoSentences [twoSentences] = (?a, [twoSentences, ?b])"
    using reflow_tail_move[of twoSentences 0 "[twoSentences]" "[]" "[]" "[]"] len(1)
    by (simp add: s2 stop)
  have m2: "reflow_while 0 twoSentences [twoSentences, ascii ''rest'']
      = (?a, [twoSentences, ?b @ ascii ''rest''])"
    using reflow_tail_move[of twoSentences 0 "[twoSentences, ascii ''rest'']" "[]" "[]" "[]"] len(1)
    by (simp add: s2 stop)
  have k1: "reflowContent [?b] = [?b]"
    using reflow_tail_move[of "[]" 0 "[]" "[]" ?b "[]"] h(3) len(3)
    by (simp add: nil)
  have k2: "reflowContent [?b @ ascii ''rest''] = [?b @ ascii ''rest'']"
    using reflow_tail_move[of "[]" 0 "[]" "[]" "?b @ ascii ''rest''" "[]"] h(5) len(5)
    by (simp add: nil)
  have k3: "reflowContent [ascii ''rest''] = [ascii ''rest'']"
    using reflow_tail_move[of "[]" 0 "[]" "[]" "ascii ''rest''" "[]"] h(4) len(4)
    by (simp add: nil)
  have r1: "reflowContent [twoSentences] = [?a, ?b]"
    using reflow_tail_move[of "[]" 0 "[]" "[]" twoSentences "[]"] h(2) len(1,2)
    by (simp add: s2 k1)
  have r2: "reflowContent [twoSentences, ascii ''rest''] = [?a, ?b @ ascii ''rest'']"
    using reflow_tail_move[of "[]" 0 "[]" "[]" twoSentences "[ascii ''rest'']"] h(2) len(1,2)
    by (simp add: s2 k2)
  have u1: "reflow_while 0 ?u [?u] = (?u, [?u])"
    using reflow_tail_move[of ?u 0 "[?u]" "[]" "[]" "[]"]
    by (simp add: s1)
  have u2: "reflowContent [?u, ascii ''rest''] = [?u, ascii ''rest'']"
    using reflow_tail_move[of "[]" 0 "[]" "[]" ?u "[ascii ''rest'']"] h(1)
    by (simp add: s1 k3)
  from h(1,2) len(1,2) s2 stop(1) m1 m2 r1 r2 u1 u2 show ?thesis
    by (simp add: s1)
qed

section \<open>The branches of the paginator\<close>

lemma step_fits:
  "currentLinesUsed st + getLineCost p \<le> MAX_LINES_PER_PAGE \<Longrightarrow>
     paginate_step st p = st\<lparr>currentChunk := currentChunk st @ [p],
       currentLinesUsed := currentLinesUsed st + getLineCost p\<rparr>"
  by (simp add: paginate_step_def Let_def)

lemma step_heading:
  "\<not> currentLinesUsed st + getLineCost p \<le> MAX_LINES_PER_PAGE \<Longrightarrow> startsWith hash p \<Longrightarrow>
     paginate_step st p =
       \<lparr>pages = (if currentChunk st \<noteq> [] then pages st @ [currentChunk st] else pages st),
        currentChunk = [p], currentLinesUsed = getLineCost p\<rparr>"
  by (simp add: paginate_step_def Let_def)

lemma step_flush:
  "\<not> currentLinesUsed st + getLineCost p \<le> MAX_LINES_PER_PAGE \<Longrightarrow> \<not> startsWith hash p \<Longrightarrow>
   MAX_LINES_PER_PAGE - currentLinesUsed st \<le> 1 \<Longrightarrow>
     paginate_step st p =
       \<lparr>pages = pages st @ [currentChunk st], currentChunk = [p], currentLinesUsed = getLineCost p\<rparr>"
  by (simp add: paginate_step_def Let_def)

lemma step_split:
  assumes "\<not> currentLinesUsed st + getLineCost p \<le> MAX_LINES_PER_PAGE" "\<not> startsWith hash p"
    "\<not> MAX_LINES_PER_PAGE - currentLinesUsed st \<le> 1"
  shows "paginate_step st p =
       \<lparr>pages = pages st @ [currentChunk st
           @ [take (nat ((MAX_LINES_PER_PAGE - currentLinesUsed st - 1) * CHARS_PER_LINE)) p]],
        currentChunk = [drop (nat ((MAX_LINES_PER_PAGE - currentLinesUsed st - 1) * CHARS_PER_LINE)) p],
        currentLinesUsed =
          getLineCost (drop (nat ((MAX_LINES_PER_PAGE - currentLinesUsed st - 1) * CHARS_PER_LINE)) p)\<rparr>"
    and "0 < nat ((MAX_LINES_PER_PAGE - currentLinesUsed st - 1) * CHARS_PER_LINE)"
    and "nat ((MAX_LINES_PER_PAGE - currentLinesUsed st - 1) * CHARS_PER_LINE) < length p"
proof -
  let ?k = "(MAX_LINES_PER_PAGE - currentLinesUsed st - 1) * CHARS_PER_LINE"
  have r: "2 \<le> MAX_LINES_PER_PAGE - currentLinesUsed st" using assms(3) by simp
  then have k: "0 < ?k" by (simp add: CHARS_PER_LINE_def)
  have "MAX_LINES_PER_PAGE - currentLinesUsed st < getLineCost p" using assms(1) by simp
  from overflow_length[OF assms(2) this r] have len: "?k < int (length p)" .
  show "0 < nat ?k" using k by simp
  show "nat ?k < length p" using len k by simp
  show "paginate_step st p =
       \<lparr>pages = pages st @ [currentChunk st @ [take (nat ?k) p]],
        currentChunk = [drop (nat ?k) p],
        currentLinesUsed = getLineCost (drop (nat ?k) p)\<rparr>"
    using assms k by (simp add: paginate_step_def Let_def slice_take slice_from_drop)
qed

text \<open>
  Claim C6.  When a paragraph that is not heading-marked overflows the current page
  and at least 2 lines of budget remain, \<open>paginate_step\<close> cuts it at the offset
  \<open>(remainingLines - 1) * CHARS_PER_LINE\<close>, which lies strictly inside the paragraph: the
  prefix is appended to the current chunk, which is pushed as a page, and the suffix
  alone is the next chunk, with its own cost as running total.  When at most 1 line
  remains the test made first applies: the current chunk is pushed unchanged and the
  whole paragraph starts the next chunk, so no fragment is cut.
\<close>

theorem character_split_branch:
  assumes "\<not> startsWith hash paragraph"
    and "MAX_LINES_PER_PAGE < currentLinesUsed st + getLineCost paragraph"
  shows "(2 \<le> MAX_LINES_PER_PAGE - currentLinesUsed st \<longrightarrow>
          (let maxChars = nat ((MAX_LINES_PER_PAGE - currentLinesUsed st - 1) * CHARS_PER_LINE)
           in paginate_step st paragraph =
                \<lparr>pages = pages st @ [currentChunk st @ [take maxChars paragraph]],
                 currentChunk = [drop maxChars paragraph],
                 currentLinesUsed = getLineCost (drop maxChars paragraph)\<rparr>
              \<and> 0 < maxChars \<and> maxChars < length paragraph))
       \<and> (MAX_LINES_PER_PAGE - currentLinesUsed st \<le> 1 \<longrightarrow>
            paginate_step st paragraph =
              \<lparr>pages = pages st @ [currentChunk st],
               currentChunk = [paragraph],
               currentLinesUsed = getLineCost paragraph\<rparr>)"
proof (intro conjI impI)
  assume r: "2 \<le> MAX_LINES_PER_PAGE - currentLinesUsed st"
  let ?k = "(MAX_LINES_PER_PAGE - currentLinesUsed st - 1) * CHARS_PER_LINE"
  have k: "0 < ?k" using r by (simp add: CHARS_PER_LINE_def)
  have "MAX_LINES_PER_PAGE - currentLinesUsed st < getLineCost paragraph"
    using assms(2) by simp
  from overflow_length[OF assms(1) this r] have len: "?k < int (length paragraph)" .
  have step: "paginate_step st paragraph =
      \<lparr>pages = pages st @ [currentChunk st @ [slice paragraph 0 ?k]],
       currentChunk = [slice_from paragraph ?k],
       currentLinesUsed = getLineCost (slice_from paragraph ?k)\<rparr>"
    using assms r by (simp add: paginate_step_def Let_def)
  show "let maxChars = nat ?k
        in paginate_step st paragraph =
             \<lparr>pages = pages st @ [currentChunk st @ [take maxChars paragraph]],
              currentChunk = [drop maxChars paragraph],
              currentLinesUsed = getLineCost (drop maxChars paragraph)\<rparr>
           \<and> 0 < maxChars \<and> maxChars < length paragraph"
    unfolding Let_def step using k len by (simp add: slice_take slice_from_drop)
next
  assume "MAX_LINES_PER_PAGE - currentLinesUsed st \<le> 1"
  then show "paginate_step st paragraph =
      \<lparr>pages = pages st @ [currentChunk st],
       currentChunk = [paragraph],
       currentLinesUsed = getLineCost paragraph\<rparr>"
    using assms by (simp add: paginate_step_def Let_def)
qed

lemma cost30: "getLineCost (replicate 30 0x61) = 3"
  by (simp add: getLineCost_def ascii_h2 ascii_h3 startsWith_def trim_def isWhiteSpace_def CHARS_PER_LINE_def Let_def)

theorem character_split_branch_witness:
  "\<not> startsWith hash (replicate 30 0x61)
   \<and> MAX_LINES_PER_PAGE < 17 + getLineCost (replicate 30 0x61)
   \<and> 2 \<le> MAX_LINES_PER_PAGE - 17
   \<and> paginate_step \<lparr>pages = [], currentChunk = [replicate 350 0x62], currentLinesUsed = 17\<rparr>
        (replicate 30 0x61)
      = \<lparr>pages = [[replicate 350 0x62, replicate 22 0x61]],
         currentChunk = [replicate 8 0x61],
         currentLinesUsed = 2\<rparr>
   \<and> \<not> startsWith hash (replicate 30 0x61)
   \<and> MAX_LINES_PER_PAGE < 18 + getLineCost (replicate 30 0x61)
   \<and> MAX_LINES_PER_PAGE - 18 \<le> 1
   \<and> paginate_step \<lparr>pages = [], currentChunk = [replicate 370 0x62], currentLinesUsed = 18\<rparr>
        (replicate 30 0x61)
      = \<lparr>pages = [[replicate 370 0x62]],
         currentChunk = [replicate 30 0x61],
         currentLinesUsed = 3\<rparr>"
proof -
  have h: "\<not> startsWith hash (replicate 30 0x61)"
    by (simp add: startsWith_def hash_def)
  have c8: "getLineCost (replicate 8 0x61) = 2"
    by (simp add: getLineCost_def ascii_h2 ascii_h3 startsWith_def trim_def isWhiteSpace_def CHARS_PER_LINE_def Let_def)
  have o1: "MAX_LINES_PER_PAGE < currentLinesUsed \<lparr>pages = [], currentChunk = [replicate 350 0x62], currentLinesUsed = 17\<rparr> + getLineCost (replicate 30 0x61)"
    by (simp add: cost30 MAX_LINES_PER_PAGE_def)
  have o2: "MAX_LINES_PER_PAGE < currentLinesUsed \<lparr>pages = [], currentChunk = [replicate 370 0x62], currentLinesUsed = 18\<rparr> + getLineCost (replicate 30 0x61)"
    by (simp add: cost30 MAX_LINES_PER_PAGE_def)
  have t: "take 22 (replicate 30 (0x61 :: jschar)) = replicate 22 0x61"
    "drop 22 (replicate 30 (0x61 :: jschar)) = replicate 8 0x61"
    by simp_all
  show ?thesis
    using character_split_branch[OF h o1] character_split_branch[OF h o2] h
    by (simp add: cost30 c8 t MAX_LINES_PER_PAGE_def CHARS_PER_LINE_def Let_def)
qed

section \<open>The page budget\<close>

lemma pageOk_single: "pageOk [p]"
  by (auto simp: pageOk_def)

lemma pager_inv_init: "pager_inv pager_init"
  by (simp add: pager_inv_def pager_init_def pageOk_def MAX_LINES_PER_PAGE_def)

lemma pager_inv_step:
  assumes "pager_inv st"
  shows "pager_inv (paginate_step st p)"
proof -
  from assms have used: "currentLinesUsed st = pageCost (currentChunk st)"
    and old: "\<forall>page \<in> set (pages st). pageOk page \<and> page \<noteq> []" and cur: "pageOk (currentChunk st)"
    by (auto simp: pager_inv_def)
  consider (fits) "currentLinesUsed st + getLineCost p \<le> MAX_LINES_PER_PAGE"
    | (heading) "\<not> currentLinesUsed st + getLineCost p \<le> MAX_LINES_PER_PAGE" "startsWith hash p"
    | (flush) "\<not> currentLinesUsed st + getLineCost p \<le> MAX_LINES_PER_PAGE" "\<not> startsWith hash p"
        "MAX_LINES_PER_PAGE - currentLinesUsed st \<le> 1"
    | (split) "\<not> currentLinesUsed st + getLineCost p \<le> MAX_LINES_PER_PAGE" "\<not> startsWith hash p"
        "\<not> MAX_LINES_PER_PAGE - currentLinesUsed st \<le> 1"
    by blast
  then show ?thesis
  proof cases
    case fits
    then have "pageOk (currentChunk st @ [p])" using used by (simp add: pageOk_def)
    then show ?thesis using used old by (simp add: step_fits[OF fits] pager_inv_def)
  next
    case heading
    show ?thesis
      using old cur by (simp add: step_heading[OF heading] pager_inv_def pageOk_single)
  next
    case flush
    have "currentChunk st \<noteq> []"
    proof
      assume "currentChunk st = []"
      then have "currentLinesUsed st = 0" using used by simp
      then show False using flush(3) by (simp add: MAX_LINES_PER_PAGE_def)
    qed
    then show ?thesis
      using old cur by (simp add: step_flush[OF flush] pager_inv_def pageOk_single)
  next
    case split
    let ?r = "MAX_LINES_PER_PAGE - currentLinesUsed st"
    have r: "2 \<le> ?r" using split(3) by simp
    have "getLineCost (take (nat ((?r - 1) * CHARS_PER_LINE)) p) \<le> ?r"
      using split(2) r step_split(3)[OF split] by (rule cost_part1)
    then have "pageOk (currentChunk st @ [take (nat ((?r - 1) * CHARS_PER_LINE)) p])"
      using used by (simp add: pageOk_def)
    then show ?thesis
      using old by (simp add: step_split(1)[OF split] pager_inv_def pageOk_single)
  qed
qed

lemma pager_inv_foldl: "pager_inv st \<Longrightarrow> pager_inv (foldl paginate_step st ps)"
  by (induction ps arbitrary: st) (auto simp: pager_inv_step)

lemma pager_text_step: "pager_text (paginate_step st p) = pager_text st @ p"
proof -
  consider (fits) "currentLinesUsed st + getLineCost p \<le> MAX_LINES_PER_PAGE"
    | (heading) "\<not> currentLinesUsed st + getLineCost p \<le> MAX_LINES_PER_PAGE" "startsWith hash p"
    | (flush) "\<not> currentLinesUsed st + getLineCost p \<le> MAX_LINES_PER_PAGE" "\<not> startsWith hash p"
        "MAX_LINES_PER_PAGE - currentLinesUsed st \<le> 1"
    | (split) "\<not> currentLinesUsed st + getLineCost p \<le> MAX_LINES_PER_PAGE" "\<not> startsWith hash p"
        "\<not> MAX_LINES_PER_PAGE - currentLinesUsed st \<le> 1"
    by blast
  then show ?thesis
  proof cases
    case fits
    then show ?thesis by (simp add: step_fits pager_text_def)
  next
    case heading
    then show ?thesis by (simp add: step_heading pager_text_def)
  next
    case flush
    then show ?thesis by (simp add: step_flush pager_text_def)
  next
    case split
    then show ?thesis by (simp add: step_split(1) pager_text_def)
  qed
qed

lemma pager_text_foldl: "pager_text (foldl paginate_step st ps) = pager_text st @ concat ps"
  by (induction ps arbitrary: st) (auto simp: pager_text_step)

lemma pager_text_finish: "concat (concat (pager_finish st)) = pager_text st"
  by (simp add: pager_finish_def pager_text_def)

lemma paginateContent_text: "concat (concat (paginateContent ps)) = concat ps"
proof -
  have "pager_text pager_init = []"
    by (simp add: pager_text_def pager_init_def)
  then show ?thesis
    by (simp add: paginateContent_def pager_text_finish pager_text_foldl)
qed

lemma paginateContent_pages:
  "page \<in> set (paginateContent ps) \<Longrightarrow> pageOk page \<and> page \<noteq> []"
proof -
  have "pager_inv (foldl paginate_step pager_init ps)"
    by (rule pager_inv_foldl) (rule pager_inv_init)
  then show "page \<in> set (paginateContent ps) \<Longrightarrow> pageOk page \<and> page \<noteq> []"
    by (auto simp: paginateContent_def pager_finish_def pager_inv_def split: if_splits)
qed

text \<open>
  Claim C3.  Every page the paginator emits is non-empty and costs at most
  \<open>MAX_LINES_PER_PAGE\<close> lines, unless it consists of exactly one paragraph whose own cost
  exceeds the budget; and nothing is dropped: the pages, concatenated in order, are the
  text of the paragraphs given.
\<close>

theorem budget_respect:
  "(\<forall>page \<in> set (paginateContent reflowedContent).
      page \<noteq> []
      \<and> (pageCost page \<le> MAX_LINES_PER_PAGE
         \<or> (\<exists>p. page = [p] \<and> MAX_LINES_PER_PAGE < getLineCost p)))
   \<and> concat (concat (paginateContent reflowedContent)) = concat reflowedContent"
proof -
  have "page \<noteq> [] \<and> (pageCost page \<le> MAX_LINES_PER_PAGE
         \<or> (\<exists>p. page = [p] \<and> MAX_LINES_PER_PAGE < getLineCost p))"
    if "page \<in> set (paginateContent reflowedContent)" for page
  proof -
    from that have ok: "pageOk page" and ne: "page \<noteq> []"
      using paginateContent_pages by blast+
    show ?thesis
    proof (cases "pageCost page \<le> MAX_LINES_PER_PAGE")
      case True
      with ne show ?thesis by simp
    next
      case False
      with ok have "length page = 1" and over: "MAX_LINES_PER_PAGE < getLineCost (hd page)"
        by (auto simp: pageOk_def)
      then obtain p where "page = [p]"
        by (cases page) auto
      with over show ?thesis by simp
    qed
  qed
  then show ?thesis by (simp add: paginateContent_text)
qed

theorem budget_respect_witness:
  "paginateContent [replicate 1000 0x61, ascii ''b'']
     = [[replicate 396 0x61], [replicate 604 0x61], [ascii ''b'']]
   \<and> pageCost [replicate 396 0x61] \<le> MAX_LINES_PER_PAGE
   \<and> MAX_LINES_PER_PAGE < getLineCost (replicate 604 0x61)
   \<and> pageCost [ascii ''b''] \<le> MAX_LINES_PER_PAGE
   \<and> concat (concat [[replicate 396 0x61], [replicate 604 0x61], [ascii ''b'']])
       = concat [replicate 1000 0x61, ascii ''b'']"
proof -
  have p: "paginateContent [replicate 1000 0x61, ascii ''b'']
     = [[replicate 396 0x61], [replicate 604 0x61], [ascii ''b'']]"
    by code_simp
  have c: "getLineCost (replicate 604 0x61) = 29" "getLineCost (replicate 396 0x61) = 19"
    "getLineCost (ascii ''b'') = 2"
    by code_simp+
  show ?thesis
    using budget_respect[of "[replicate 1000 0x61, ascii ''b'']"]
    by (simp add: p c MAX_LINES_PER_PAGE_def)
qed

section \<open>Headings\<close>

lemma pager_paras_step:
  "set (pager_paras st) \<subseteq> set (pager_paras (paginate_step st p))
   \<and> (startsWith hash p \<longrightarrow> p \<in> set (pager_paras (paginate_step st p)))"
proof -
  consider (fits) "currentLinesUsed st + getLineCost p \<le> MAX_LINES_PER_PAGE"
    | (heading) "\<not> currentLinesUsed st + getLineCost p \<le> MAX_LINES_PER_PAGE" "startsWith hash p"
    | (flush) "\<not> currentLinesUsed st + getLineCost p \<le> MAX_LINES_PER_PAGE" "\<not> startsWith hash p"
        "MAX_LINES_PER_PAGE - currentLinesUsed st \<le> 1"
    | (split) "\<not> currentLinesUsed st + getLineCost p \<le> MAX_LINES_PER_PAGE" "\<not> startsWith hash p"
        "\<not> MAX_LINES_PER_PAGE - currentLinesUsed st \<le> 1"
    by blast
  then show ?thesis
  proof cases
    case fits
    then show ?thesis by (auto simp: step_fits pager_paras_def)
  next
    case heading
    then show ?thesis by (auto simp: step_heading pager_paras_def)
  next
    case flush
    then show ?thesis by (auto simp: step_flush pager_paras_def)
  next
    case split
    then show ?thesis by (auto simp: step_split(1) pager_paras_def)
  qed
qed

lemma pager_paras_foldl_mono:
  "h \<in> set (pager_paras st) \<Longrightarrow> h \<in> set (pager_paras (foldl paginate_step st ps))"
proof (induction ps arbitrary: st)
  case Nil
  then show ?case by simp
next
  case (Cons p ps)
  from Cons.prems pager_paras_step[of st p] have "h \<in> set (pager_paras (paginate_step st p))"
    by blast
  then show ?case using Cons.IH by simp
qed

lemma pager_paras_foldl_heading:
  "h \<in> set ps \<Longrightarrow> startsWith hash h \<Longrightarrow> h \<in> set (pager_paras (foldl paginate_step st ps))"
proof (induction ps arbitrary: st)
  case Nil
  then show ?case by simp
next
  case (Cons p ps)
  show ?case
  proof (cases "h = p")
    case True
    with Cons.prems pager_paras_step[of st p] have "h \<in> set (pager_paras (paginate_step st p))"
      by blast
    then show ?thesis using pager_paras_foldl_mono by simp
  next
    case False
    with Cons show ?thesis by simp
  qed
qed

lemma pager_paras_finish: "concat (pager_finish st) = pager_paras st"
  by (simp add: pager_finish_def pager_paras_def)

lemma paginateContent_heading_whole:
  assumes "h \<in> set ps" "startsWith hash h"
  shows "\<exists>page \<in> set (paginateContent ps). h \<in> set page"
proof -
  have "h \<in> set (concat (paginateContent ps))"
    using assms by (simp add: paginateContent_def pager_paras_finish pager_paras_foldl_heading)
  then show ?thesis by auto
qed

lemma midHeadingsFit_short: "length page \<le> 1 \<Longrightarrow> midHeadingsFit page"
  by (simp add: midHeadingsFit_def)

lemma midHeadingsFit_snoc:
  assumes "midHeadingsFit chunk"
    and "startsWith hash p \<Longrightarrow> pageCost chunk + getLineCost p \<le> MAX_LINES_PER_PAGE"
  shows "midHeadingsFit (chunk @ [p])"
  unfolding midHeadingsFit_def
proof (intro ballI impI)
  fix k
  assume k: "k \<in> {1..<length (chunk @ [p])}" and h: "startsWith hash ((chunk @ [p]) ! k)"
  show "pageCost (take (Suc k) (chunk @ [p])) \<le> MAX_LINES_PER_PAGE"
  proof (cases "k < length chunk")
    case True
    then have "(chunk @ [p]) ! k = chunk ! k" "take (Suc k) (chunk @ [p]) = take (Suc k) chunk"
      by (simp_all add: nth_append)
    with assms(1) k h True show ?thesis by (simp add: midHeadingsFit_def)
  next
    case False
    with k have "k = length chunk" by simp
    with h assms(2) show ?thesis by simp
  qed
qed

lemma pager_mid_step:
  assumes "pager_inv st" "pager_mid st"
  shows "pager_mid (paginate_step st p)"
proof -
  from assms have used: "currentLinesUsed st = pageCost (currentChunk st)"
    and old: "\<forall>page \<in> set (pages st). midHeadingsFit page" and cur: "midHeadingsFit (currentChunk st)"
    by (auto simp: pager_inv_def pager_mid_def)
  consider (fits) "currentLinesUsed st + getLineCost p \<le> MAX_LINES_PER_PAGE"
    | (heading) "\<not> currentLinesUsed st + getLineCost p \<le> MAX_LINES_PER_PAGE" "startsWith hash p"
    | (flush) "\<not> currentLinesUsed st + getLineCost p \<le> MAX_LINES_PER_PAGE" "\<not> startsWith hash p"
        "MAX_LINES_PER_PAGE - currentLinesUsed st \<le> 1"
    | (split) "\<not> currentLinesUsed st + getLineCost p \<le> MAX_LINES_PER_PAGE" "\<not> startsWith hash p"
        "\<not> MAX_LINES_PER_PAGE - currentLinesUsed st \<le> 1"
    by blast
  then show ?thesis
  proof cases
    case fits
    have "midHeadingsFit (currentChunk st @ [p])"
      using cur fits used by (intro midHeadingsFit_snoc) simp_all
    then show ?thesis using old by (simp add: step_fits[OF fits] pager_mid_def)
  next
    case heading
    show ?thesis
      using old cur by (simp add: step_heading[OF heading] pager_mid_def midHeadingsFit_short)
  next
    case flush
    show ?thesis
      using old cur by (simp add: step_flush[OF flush] pager_mid_def midHeadingsFit_short)
  next
    case split
    let ?m = "nat ((MAX_LINES_PER_PAGE - currentLinesUsed st - 1) * CHARS_PER_LINE)"
    have "\<not> startsWith hash (take ?m p)"
      using split(2) step_split(2)[OF split] by (simp add: startsWith_hash_take)
    then have "midHeadingsFit (currentChunk st @ [take ?m p])"
      using cur by (intro midHeadingsFit_snoc) simp_all
    then show ?thesis
      using old by (simp add: step_split(1)[OF split] pager_mid_def midHeadingsFit_short)
  qed
qed

lemma pager_mid_foldl:
  "pager_inv st \<Longrightarrow> pager_mid st \<Longrightarrow> pager_mid (foldl paginate_step st ps)"
  by (induction ps arbitrary: st) (auto simp: pager_inv_step pager_mid_step)

lemma paginateContent_mid:
  "page \<in> set (paginateContent ps) \<Longrightarrow> midHeadingsFit page"
proof -
  have "pager_mid pager_init"
    by (simp add: pager_mid_def pager_init_def midHeadingsFit_short)
  then have "pager_mid (foldl paginate_step pager_init ps)"
    using pager_inv_init by (intro pager_mid_foldl)
  then show "page \<in> set (paginateContent ps) \<Longrightarrow> midHeadingsFit page"
    by (auto simp: paginateContent_def pager_finish_def pager_mid_def split: if_splits)
qed

text \<open>
  Claim C2, amended.  A slot that is heading-marked when the loop of \<open>reflowContent\<close>
  reaches it is pushed to the output unchanged, after the output so far, and reflow goes
  on with the later slots as on a fresh input; this holds of the first input string and
  of one whose preceding slots all need no splitting.  The paginator never cuts a
  heading-marked paragraph: when it fits the remaining budget it is appended to the
  current page, after whatever the page holds; only when it overflows does it start a
  new page.  So every heading-marked paragraph given to the paginator is, whole, an
  element of some page, and one that is not first on its page fitted the budget together
  with what stands before it.
\<close>

theorem heading_handling:
  "(i < length buffer \<and> startsWith hash (buffer ! i) \<longrightarrow>
      reflow_outer i buffer refined = refined @ buffer ! i # reflowContent (drop (Suc i) buffer))
   \<and> (startsWith hash h \<longrightarrow> reflowContent (h # post) = h # reflowContent post)
   \<and> ((\<forall>s \<in> set pre. settled s) \<and> startsWith hash h \<longrightarrow>
        reflowContent (pre @ h # post) = pre @ h # reflowContent post)
   \<and> (startsWith hash h \<longrightarrow>
        paginate_step st h =
          (if currentLinesUsed st + getLineCost h \<le> MAX_LINES_PER_PAGE
           then st\<lparr>currentChunk := currentChunk st @ [h],
                  currentLinesUsed := currentLinesUsed st + getLineCost h\<rparr>
           else \<lparr>pages = (if currentChunk st \<noteq> [] then pages st @ [currentChunk st]
                          else pages st),
                 currentChunk = [h],
                 currentLinesUsed = getLineCost h\<rparr>))
   \<and> (h \<in> set reflowedContent \<and> startsWith hash h \<longrightarrow>
        (\<exists>page \<in> set (paginateContent reflowedContent). h \<in> set page))
   \<and> (\<forall>page \<in> set (paginateContent reflowedContent). \<forall>k \<in> {1..<length page}.
        startsWith hash (page ! k) \<longrightarrow> pageCost (take (Suc k) page) \<le> MAX_LINES_PER_PAGE)"
proof (intro conjI impI)
  assume "i < length buffer \<and> startsWith hash (buffer ! i)"
  then show "reflow_outer i buffer refined
      = refined @ buffer ! i # reflowContent (drop (Suc i) buffer)"
    by (simp add: reflow_outer_heading_emit)
next
  assume "startsWith hash h"
  then have "settled h" by (simp add: settled_def)
  then show "reflowContent (h # post) = h # reflowContent post"
    by (rule reflowContent_Cons_settled)
next
  assume a: "(\<forall>s \<in> set pre. settled s) \<and> startsWith hash h"
  then have "settled h" by (simp add: settled_def)
  then have "reflowContent (h # post) = h # reflowContent post"
    by (rule reflowContent_Cons_settled)
  with a show "reflowContent (pre @ h # post) = pre @ h # reflowContent post"
    by (simp add: reflowContent_settled_prefix)
next
  assume "startsWith hash h"
  then show "paginate_step st h =
          (if currentLinesUsed st + getLineCost h \<le> MAX_LINES_PER_PAGE
           then st\<lparr>currentChunk := currentChunk st @ [h],
                  currentLinesUsed := currentLinesUsed st + getLineCost h\<rparr>
           else \<lparr>pages = (if currentChunk st \<noteq> [] then pages st @ [currentChunk st]
                          else pages st),
                 currentChunk = [h],
                 currentLinesUsed = getLineCost h\<rparr>)"
    by (simp add: step_fits step_heading)
next
  assume "h \<in> set reflowedContent \<and> startsWith hash h"
  then show "\<exists>page \<in> set (paginateContent reflowedContent). h \<in> set page"
    by (intro paginateContent_heading_whole) auto
next
  show "\<forall>page \<in> set (paginateContent reflowedContent). \<forall>k \<in> {1..<length page}.
        startsWith hash (page ! k) \<longrightarrow> pageCost (take (Suc k) page) \<le> MAX_LINES_PER_PAGE"
    using paginateContent_mid[of _ reflowedContent] by (auto simp: midHeadingsFit_def)
qed

text \<open>
  The claim as stated fails twice: a sentence carried over from the slot before is
  prepended to a heading, and a heading that fits is placed second on its page.
\<close>

theorem heading_not_isolated:
  "reflowContent [twoSentences, ascii ''## H'']
     = [replicate 40 0x61 @ [0x2E], replicate 40 0x62 @ ascii ''## H'']
   \<and> startsWith hash (ascii ''## T'')
   \<and> paginateContent (reflowContent [ascii ''abc'', ascii ''## T''])
       = [[ascii ''abc'', ascii ''## T'']]"
proof -
  have "reflowContent [twoSentences, ascii ''## H'']
     = [replicate 40 0x61 @ [0x2E], replicate 40 0x62 @ ascii ''## H'']"
    by code_simp
  moreover have "startsWith hash (ascii ''## T'')"
    by code_simp
  moreover have "paginateContent (reflowContent [ascii ''abc'', ascii ''## T''])
       = [[ascii ''abc'', ascii ''## T'']]"
    by code_simp
  ultimately show ?thesis by blast
qed

theorem heading_handling_witness:
  "startsWith hash (ascii ''## T'')
   \<and> reflowContent [twoSentences, ascii ''x'', ascii ''## T'']
       = [replicate 40 0x61 @ [0x2E], replicate 40 0x62 @ ascii ''x'', ascii ''## T'']
   \<and> reflow_outer 2 [twoSentences, replicate 40 0x62 @ ascii ''x'', ascii ''## T'']
         [replicate 40 0x61 @ [0x2E], replicate 40 0x62 @ ascii ''x'']
       = [replicate 40 0x61 @ [0x2E], replicate 40 0x62 @ ascii ''x'', ascii ''## T'']
   \<and> reflowContent [ascii ''## T'', twoSentences]
       = [ascii ''## T'', replicate 40 0x61 @ [0x2E], replicate 40 0x62]
   \<and> settled (ascii ''short'')
   \<and> reflowContent ([ascii ''short''] @ ascii ''## T'' # [twoSentences])
       = [ascii ''short''] @ ascii ''## T'' # [replicate 40 0x61 @ [0x2E], replicate 40 0x62]
   \<and> paginate_step \<lparr>pages = [], currentChunk = [replicate 370 0x62], currentLinesUsed = 18\<rparr>
        (ascii ''## T'')
       = \<lparr>pages = [[replicate 370 0x62]], currentChunk = [ascii ''## T''], currentLinesUsed = 3\<rparr>
   \<and> paginate_step \<lparr>pages = [], currentChunk = [ascii ''abc''], currentLinesUsed = 2\<rparr>
        (ascii ''## T'')
       = \<lparr>pages = [], currentChunk = [ascii ''abc'', ascii ''## T''], currentLinesUsed = 5\<rparr>
   \<and> paginateContent [ascii ''abc'', ascii ''## T''] = [[ascii ''abc'', ascii ''## T'']]
   \<and> 1 \<in> {1..<length [ascii ''abc'', ascii ''## T'']}
   \<and> pageCost (take (Suc 1) [ascii ''abc'', ascii ''## T'']) \<le> MAX_LINES_PER_PAGE
   \<and> ascii ''## T'' \<in> set [ascii ''abc'', ascii ''## T'']
   \<and> (\<exists>page \<in> set (paginateContent [ascii ''abc'', ascii ''## T'']). ascii ''## T'' \<in> set page)"
proof -
  let ?T = "ascii ''## T''"
  let ?a = "replicate 40 0x61 @ [0x2E :: jschar]"
  let ?bx = "replicate 40 0x62 @ ascii ''x''"
  let ?page = "[ascii ''abc'', ?T]"
  have st: "settled (ascii ''short'')"
    by code_simp
  have h: "startsWith hash ?T"
    by code_simp
  have r: "reflowContent [twoSentences] = [replicate 40 0x61 @ [0x2E], replicate 40 0x62]"
    by code_simp
  have rx: "reflowContent [twoSentences, ascii ''x'', ?T] = [?a, ?bx, ?T]"
    by code_simp
  have nil: "reflowContent [] = []"
    by (rule reflowContent_Nil)
  have c: "getLineCost ?T = 3"
    by code_simp
  have p: "paginateContent ?page = [?page]"
    by code_simp
  have pre: "\<forall>s \<in> set [ascii ''short'']. settled s"
    using st by simp
  have k: "1 \<in> {1..<length ?page}"
    by simp
  have reached: "reflow_outer 2 [twoSentences, ?bx, ?T] [?a, ?bx] = [?a, ?bx, ?T]"
    using heading_handling[of 2 "[twoSentences, ?bx, ?T]" "[?a, ?bx]" ?T "[]" "[]" pager_init "[]"] h
    by (simp add: nil)
  have first: "reflowContent [?T, twoSentences] = [?T, replicate 40 0x61 @ [0x2E], replicate 40 0x62]"
    using heading_handling[of 0 "[]" "[]" ?T "[twoSentences]" "[]" pager_init "[]"] h
    by (simp add: r)
  have prefix: "reflowContent ([ascii ''short''] @ ?T # [twoSentences])
       = [ascii ''short''] @ ?T # [replicate 40 0x61 @ [0x2E], replicate 40 0x62]"
    using heading_handling[of 0 "[]" "[]" ?T "[twoSentences]" "[ascii ''short'']" pager_init "[]"] h pre
    by (simp add: r)
  have s1: "paginate_step \<lparr>pages = [], currentChunk = [replicate 370 0x62], currentLinesUsed = 18\<rparr> ?T
       = \<lparr>pages = [[replicate 370 0x62]], currentChunk = [?T], currentLinesUsed = 3\<rparr>"
    using heading_handling[of 0 "[]" "[]" ?T "[]" "[]"
        "\<lparr>pages = [], currentChunk = [replicate 370 0x62], currentLinesUsed = 18\<rparr>" "[]"] h
    by (simp add: c MAX_LINES_PER_PAGE_def)
  have s2: "paginate_step \<lparr>pages = [], currentChunk = [ascii ''abc''], currentLinesUsed = 2\<rparr> ?T
       = \<lparr>pages = [], currentChunk = [ascii ''abc'', ?T], currentLinesUsed = 5\<rparr>"
    using heading_handling[of 0 "[]" "[]" ?T "[]" "[]"
        "\<lparr>pages = [], currentChunk = [ascii ''abc''], currentLinesUsed = 2\<rparr>" "[]"] h
    by (simp add: c MAX_LINES_PER_PAGE_def)
  have inp: "?page \<in> set (paginateContent ?page)"
    by (simp add: p)
  have hk: "startsWith hash (?page ! 1)"
    using h by simp
  have fit: "pageCost (take (Suc 1) ?page) \<le> MAX_LINES_PER_PAGE"
    using heading_handling[of 0 "[]" "[]" ?T "[]" "[]" pager_init ?page] inp hk k
    by blast
  have m: "?T \<in> set ?page"
    by simp
  with h have ex: "\<exists>page \<in> set (paginateContent ?page). ?T \<in> set page"
    using heading_handling[of 0 "[]" "[]" ?T "[]" "[]" pager_init ?page]
    by blast
  from h rx reached first st prefix s1 s2 p k fit m ex show ?thesis
    by blast
qed

section \<open>Verbatim preservation\<close>

lemma noLeadingMark_dropWhile: "noLeadingMark s \<Longrightarrow> dropWhile isBoundary s = s"
  by (cases s) (auto simp: noLeadingMark_def)

lemma noLeadingMark_append: "s \<noteq> [] \<Longrightarrow> noLeadingMark s \<Longrightarrow> noLeadingMark (s @ t)"
  by (cases s) (auto simp: noLeadingMark_def)

lemma matchSentences_noLeadingMark: "s \<in> set (matchSentences t) \<Longrightarrow> noLeadingMark s"
  by (induction t rule: matchSentences.induct)
    (auto simp: Let_def noLeadingMark_def split: if_splits)

lemma tail_move_text:
  assumes "1 < length (splitIntoSentences t)" "noLeadingMark t"
  shows "concat (butlast (splitIntoSentences t)) @ last (splitIntoSentences t) = t"
    and "noLeadingMark (concat (butlast (splitIntoSentences t)))"
    and "noLeadingMark (last (splitIntoSentences t))"
proof -
  let ?ss = "splitIntoSentences t"
  have eq: "?ss = matchSentences t" using assms(1) by (rule splitIntoSentences_multi)
  have ne: "?ss \<noteq> []" by (rule splitIntoSentences_nonempty)
  have "concat (butlast ?ss) @ last ?ss = concat (butlast ?ss @ [last ?ss])" by simp
  also have "\<dots> = concat ?ss" using ne by simp
  also have "\<dots> = t" unfolding eq concat_matchSentences using assms(2) by (rule noLeadingMark_dropWhile)
  finally show "concat (butlast ?ss) @ last ?ss = t" .
  have "last ?ss \<in> set (matchSentences t)" using ne eq by (metis last_in_set)
  then show "noLeadingMark (last ?ss)" by (rule matchSentences_noLeadingMark)
  from assms(1) obtain a b rest where ss: "?ss = a # b # rest"
    by (cases ?ss; cases "tl ?ss") auto
  then have a: "a \<in> set (matchSentences t)" using eq by simp
  from a have "a \<noteq> []" by (rule matchSentences_nonempty)
  moreover from a have "noLeadingMark a" by (rule matchSentences_noLeadingMark)
  ultimately have "noLeadingMark (a @ concat (butlast (b # rest)))" by (rule noLeadingMark_append)
  then show "noLeadingMark (concat (butlast ?ss))" using ss by simp
qed

lemma reflow_while_text:
  "reflow_while i c b = (c', b') \<Longrightarrow> i < length b \<Longrightarrow> noLeadingMark c \<Longrightarrow>
   \<forall>s \<in> set (drop (Suc i) b). noLeadingMark s \<Longrightarrow>
     c' @ concat (drop (Suc i) b') = c @ concat (drop (Suc i) b)
     \<and> (\<forall>s \<in> set (drop (Suc i) b'). noLeadingMark s)"
proof (induction i c b rule: reflow_while.induct)
  case (1 i current buffer)
  show ?case
  proof (cases "length current > MAX_CHARS_PER_PARA \<and> 1 < length (splitIntoSentences current)")
    case False
    then show ?thesis using 1(2,5) by (simp add: reflow_while_stop)
  next
    case True
    let ?l = "last (splitIntoSentences current)"
    let ?r = "concat (butlast (splitIntoSentences current))"
    let ?b = "if i + 1 < length buffer then buffer[i + 1 := ?l @ buffer ! (i + 1)] else buffer @ [?l]"
    have multi: "1 < length (splitIntoSentences current)" using True by simp
    note tm = tail_move_text[OF multi 1(4)]
    have lne: "?l \<noteq> []" using multi by (rule tail_move_shortens(2))
    have rw: "reflow_while i ?r ?b = (c', b')"
      using True 1(2) by (simp add: reflow_while_move)
    have ib: "i < length ?b" using 1(3) by auto
    have d: "drop (Suc i) ?b = (if Suc i < length buffer
        then (?l @ buffer ! Suc i) # drop (Suc (Suc i)) buffer else [?l])"
      using 1(3) by (auto simp: drop_update_swap Cons_nth_drop_Suc[symmetric] upd_conv_take_nth_drop)
    have dc: "concat (drop (Suc i) ?b) = ?l @ concat (drop (Suc i) buffer)"
      using 1(3) unfolding d by (auto simp: Cons_nth_drop_Suc[symmetric])
    have dn: "\<forall>s \<in> set (drop (Suc i) ?b). noLeadingMark s"
      unfolding d using 1(5) tm(3) lne
      by (auto simp: noLeadingMark_append Cons_nth_drop_Suc[symmetric])
    have "c' @ concat (drop (Suc i) b') = ?r @ concat (drop (Suc i) ?b)
        \<and> (\<forall>s \<in> set (drop (Suc i) b'). noLeadingMark s)"
      using True rw ib tm(2) dn by (intro 1(1)[OF _ refl _ refl refl refl]) auto
    then show ?thesis unfolding dc using tm(1) by (metis append.assoc)
  qed
qed

lemma reflow_outer_text:
  "\<forall>s \<in> set (drop i b). noLeadingMark s \<Longrightarrow>
     concat (reflow_outer i b r) = concat r @ concat (drop i b)"
proof (induction i b r rule: reflow_outer.induct)
  case (1 i buffer refined)
  show ?case
  proof (cases "i < length buffer")
    case False
    then show ?thesis by (simp add: reflow_outer_done)
  next
    case i: True
    then have d: "drop i buffer = buffer ! i # drop (i + 1) buffer"
      by (simp add: Cons_nth_drop_Suc)
    with 1(3) have cur: "noLeadingMark (buffer ! i)"
      and rest: "\<forall>s \<in> set (drop (i + 1) buffer). noLeadingMark s"
      by auto
    show ?thesis
    proof (cases "startsWith hash (buffer ! i)")
      case True
      have "concat (reflow_outer (i + 1) buffer (refined @ [buffer ! i]))
          = concat (refined @ [buffer ! i]) @ concat (drop (i + 1) buffer)"
        using i True rest by (intro 1(1)[OF _ refl]) auto
      then show ?thesis using i True d by (simp add: reflow_outer_heading)
    next
      case False
      obtain c' b' where rw: "reflow_while i (buffer ! i) buffer = (c', b')"
        by (cases "reflow_while i (buffer ! i) buffer")
      from reflow_while_text[OF rw i cur] rest
      have t: "c' @ concat (drop (Suc i) b') = buffer ! i @ concat (drop (Suc i) buffer)"
        and n: "\<forall>s \<in> set (drop (Suc i) b'). noLeadingMark s"
        by simp_all
      have "concat (reflow_outer (i + 1) b' (refined @ [c']))
          = concat (refined @ [c']) @ concat (drop (i + 1) b')"
        using i False rw n by (intro 1(2)[OF _ refl _ refl]) auto
      then show ?thesis using i False rw d t by (simp add: reflow_outer_para)
    qed
  qed
qed

lemma reflowContent_text:
  "\<forall>s \<in> set paragraphs. noLeadingMark s \<Longrightarrow> concat (reflowContent paragraphs) = concat paragraphs"
  using reflow_outer_text[of 0 paragraphs "[]"] by (simp add: reflowContent_def)

lemma pipeline_text:
  "\<forall>s \<in> set paragraphs. noLeadingMark s \<Longrightarrow>
     concat (concat (paginateContent (reflowContent paragraphs))) = concat paragraphs"
  by (simp add: paginateContent_text reflowContent_text)

text \<open>
  Claim C1 (the pages of a slide, concatenated, are the text of its paragraphs) fails
  at a paragraph that begins with an ellipsis of three full stops: the
  regular expression of \<open>splitIntoSentences\<close> skips boundary marks at the very start of
  the text, so the first tail move loses them, and the pages no longer hold the text of
  the paragraph.  (When no paragraph begins with a boundary mark the text is preserved:
  \<open>pipeline_text\<close>.)
\<close>

theorem leading_marks_dropped:
  "reflowContent [leadingEllipsis] = [replicate 40 0x61 @ [0x2E], replicate 40 0x62]
   \<and> paginateContent (reflowContent [leadingEllipsis])
       = [[replicate 40 0x61 @ [0x2E], replicate 40 0x62]]
   \<and> concat (concat (paginateContent (reflowContent [leadingEllipsis]))) = twoSentences
   \<and> concat [leadingEllipsis] = ascii ''...'' @ twoSentences
   \<and> concat (concat (paginateContent (reflowContent [leadingEllipsis]))) \<noteq> concat [leadingEllipsis]"
proof -
  have r: "reflowContent [leadingEllipsis] = [replicate 40 0x61 @ [0x2E], replicate 40 0x62]"
    by code_simp
  have p: "paginateContent [replicate 40 0x61 @ [0x2E], replicate 40 0x62]
       = [[replicate 40 0x61 @ [0x2E], replicate 40 0x62]]"
    by code_simp
  have c: "concat (concat (paginateContent (reflowContent [leadingEllipsis]))) = twoSentences"
    by (simp add: r p twoSentences_def)
  have e: "concat [leadingEllipsis] = ascii ''...'' @ twoSentences"
    by (simp add: leadingEllipsis_def)
  have "twoSentences \<noteq> ascii ''...'' @ twoSentences"
    by (simp add: ascii_def)
  then have "concat (concat (paginateContent (reflowContent [leadingEllipsis]))) \<noteq> concat [leadingEllipsis]"
    by (simp only: c e not_False_eq_True)
  with r p c e show ?thesis
    by (simp only: simp_thms)
qed

section \<open>Page numbers\<close>

lemma map_enumerate_index:
  "map (\<lambda>(index, slide). g index) (enumerate n xs) = map g [n..<n + length xs]"
proof -
  have "map (\<lambda>(index, slide). g index) (enumerate n xs) = map (g \<circ> fst) (enumerate n xs)"
    by (simp add: case_prod_unfold comp_def)
  also have "\<dots> = map g (map fst (enumerate n xs))"
    by (simp only: map_map)
  also have "\<dots> = map g [n..<n + length xs]"
    by (simp only: map_fst_enumerate)
  finally show ?thesis .
qed

lemma pageNumber_finishingPass:
  "map pageNumber (finishingPass now finalData) = map Some [1..<length finalData + 1]"
proof -
  have "map pageNumber (finishingPass now finalData)
      = map (\<lambda>(index, slide). Some (Suc index)) (enumerate 0 finalData)"
    by (simp add: finishingPass_def finishSlide_def Let_def case_prod_unfold comp_def)
  also have "\<dots> = map (\<lambda>index. Some (Suc index)) [0..<length finalData]"
    using map_enumerate_index[of "\<lambda>index. Some (Suc index)" 0 finalData] by simp
  also have "\<dots> = map Some (map Suc [0..<length finalData])"
    by (simp add: comp_def)
  also have "map Suc [0..<length finalData] = [1..<length finalData + 1]"
    by (simp add: map_Suc_upt)
  finally show ?thesis .
qed

lemma totalPages_finishingPass:
  "map totalPages (finishingPass now finalData)
     = replicate (length finalData) (Some (length finalData))"
proof -
  have "map totalPages (finishingPass now finalData)
      = map (\<lambda>(index, slide). Some (length finalData)) (enumerate 0 finalData)"
    by (simp add: finishingPass_def finishSlide_def Let_def case_prod_unfold comp_def)
  also have "\<dots> = map (\<lambda>index. Some (length finalData)) [0..<length finalData]"
    using map_enumerate_index[of "\<lambda>index. Some (length finalData)" 0 finalData] by simp
  also have "\<dots> = replicate (length finalData) (Some (length finalData))"
    by (simp add: map_replicate_const)
  finally show ?thesis .
qed

lemma length_finishingPass: "length (finishingPass now finalData) = length finalData"
  by (simp add: finishingPass_def Let_def)

lemma slideType_finishingPass:
  "map slideType (finishingPass now finalData) = map slideType finalData"
proof -
  have "map slideType (finishingPass now finalData) = map (slideType \<circ> snd) (enumerate 0 finalData)"
    by (simp add: finishingPass_def finishSlide_def Let_def case_prod_unfold comp_def)
  then show ?thesis by (simp flip: map_map)
qed

text \<open>
  Claim C8.  The finishing pass keeps the length \<open>N\<close> and the order of the final
  sequence; the page numbers of its result are \<open>1, \<dots>, N\<close> in output order, whatever the
  type of the slide, and every slide's \<open>totalPages\<close> is \<open>N\<close>.  This holds in particular for
  the sequence the paginator hands over.
\<close>

theorem numbering_contract:
  "length (finishingPass now finalData) = length finalData
   \<and> map pageNumber (finishingPass now finalData) = map Some [1..<length finalData + 1]
   \<and> map totalPages (finishingPass now finalData)
       = replicate (length finalData) (Some (length finalData))
   \<and> map slideType (finishingPass now finalData) = map slideType finalData
   \<and> map pageNumber (generateSlides now generatedData)
       = map Some [1..<length (paginatedSlides generatedData) + 1]
   \<and> map totalPages (generateSlides now generatedData)
       = replicate (length (paginatedSlides generatedData))
           (Some (length (paginatedSlides generatedData)))"
  by (simp only: length_finishingPass pageNumber_finishingPass totalPages_finishingPass
      slideType_finishingPass generateSlides_def simp_thms)

theorem numbering_contract_witness:
  "map pageNumber (finishingPass (\<lambda>index. 0) threeSlides) = [Some 1, Some 2, Some 3]
   \<and> map totalPages (finishingPass (\<lambda>index. 0) threeSlides) = [Some 3, Some 3, Some 3]
   \<and> map slideType (finishingPass (\<lambda>index. 0) threeSlides) = [Cover, Content, Content]
   \<and> map content (paginatedSlides serverAnswer)
       = [[ascii ''Q''], [replicate 40 0x61 @ [0x2E], replicate 40 0x62], [ascii ''two'']]
   \<and> map pageNumber (generateSlides (\<lambda>index. 0) serverAnswer) = [Some 1, Some 2, Some 3]
   \<and> map totalPages (generateSlides (\<lambda>index. 0) serverAnswer) = [Some 3, Some 3, Some 3]"
proof -
  have u: "map Some [1..<3 + 1] = [Some 1, Some 2, Some (3 :: nat)]"
    by (simp add: upt_rec)
  have v: "replicate 3 (Some (3 :: nat)) = [Some 3, Some 3, Some 3]"
    by (simp add: numeral_3_eq_3)
  have l: "length threeSlides = 3"
    by (simp add: threeSlides_def)
  have t: "map slideType threeSlides = [Cover, Content, Content]"
    by code_simp
  have p: "map content (paginatedSlides serverAnswer)
      = [[ascii ''Q''], [replicate 40 0x61 @ [0x2E], replicate 40 0x62], [ascii ''two'']]"
    by code_simp
  have "length (map content (paginatedSlides serverAnswer)) = 3"
    by (simp only: p) simp
  then have n: "length (paginatedSlides serverAnswer) = 3"
    by simp
  note c = numbering_contract[of "\<lambda>index. 0" threeSlides serverAnswer]
  from c have "map pageNumber (finishingPass (\<lambda>index. 0) threeSlides) = [Some 1, Some 2, Some 3]"
    by (simp only: l u)
  moreover from c have "map totalPages (finishingPass (\<lambda>index. 0) threeSlides) = [Some 3, Some 3, Some 3]"
    by (simp only: l v)
  moreover from c have "map slideType (finishingPass (\<lambda>index. 0) threeSlides) = [Cover, Content, Content]"
    by (simp only: t)
  moreover from c have "map pageNumber (generateSlides (\<lambda>index. 0) serverAnswer) = [Some 1, Some 2, Some 3]"
    by (simp only: n u)
  moreover from c have "map totalPages (generateSlides (\<lambda>index. 0) serverAnswer) = [Some 3, Some 3, Some 3]"
    by (simp only: n v)
  ultimately show ?thesis
    using p by blast
qed

subsection \<open>Renumbering after an edit\<close>

lemma length_reindex_from: "length (reindex_from t k xs) = length xs"
  by (induction xs arbitrary: k) auto

lemma reindex_from_pageNumber:
  "map pageNumber (filter (\<lambda>s. slideType s \<noteq> Cover) (reindex_from t k xs))
     = map Some [k + 1..<k + 1 + length (filter (\<lambda>s. slideType s \<noteq> Cover) xs)]"
proof (induction xs arbitrary: k)
  case Nil
  show ?case by simp
next
  case (Cons x xs)
  show ?case
  proof (cases "slideType x = Cover")
    case True
    then show ?thesis using Cons[of k] by simp
  next
    case False
    let ?m = "length (filter (\<lambda>s. slideType s \<noteq> Cover) xs)"
    have "[k + 1..<k + 1 + Suc ?m] = (k + 1) # [k + 1 + 1..<k + 1 + 1 + ?m]"
      by (subst upt_rec) simp
    then show ?thesis using False Cons[of "k + 1"] by simp
  qed
qed

lemma reindex_from_totalPages:
  "map totalPages (reindex_from t k xs) = replicate (length xs) (Some t)"
  by (induction xs arbitrary: k) auto

lemma reindex_from_cover:
  "map pageNumber (filter (\<lambda>s. slideType s = Cover) (reindex_from t k xs))
     = map pageNumber (filter (\<lambda>s. slideType s = Cover) xs)"
  by (induction xs arbitrary: k) auto

lemma reindex_from_frame:
  "map (\<lambda>s. s\<lparr>pageNumber := None, totalPages := None\<rparr>) (reindex_from t k xs)
     = map (\<lambda>s. s\<lparr>pageNumber := None, totalPages := None\<rparr>) xs"
  by (induction xs arbitrary: k) auto

text \<open>
  Claim C10.  \<open>reindexSlides\<close> keeps the length and every field other than
  \<open>pageNumber\<close> and \<open>totalPages\<close>; with \<open>M\<close> the number of slides that are not covers, the
  non-cover slides get the page numbers \<open>1, \<dots>, M\<close> in order, every slide gets
  \<open>totalPages = M\<close>, and a cover keeps the page number it had.  The finishing pass on the
  same list numbers every position, covers included, and sets \<open>totalPages\<close> to the length
  of the whole list.
\<close>

theorem reindexSlides_numbering:
  "length (reindexSlides currentSlides) = length currentSlides
   \<and> map pageNumber (filter (\<lambda>s. slideType s \<noteq> Cover) (reindexSlides currentSlides))
       = map Some [1..<length (filter (\<lambda>s. slideType s \<noteq> Cover) currentSlides) + 1]
   \<and> map totalPages (reindexSlides currentSlides)
       = replicate (length currentSlides)
           (Some (length (filter (\<lambda>s. slideType s \<noteq> Cover) currentSlides)))
   \<and> map pageNumber (filter (\<lambda>s. slideType s = Cover) (reindexSlides currentSlides))
       = map pageNumber (filter (\<lambda>s. slideType s = Cover) currentSlides)
   \<and> map (\<lambda>s. s\<lparr>pageNumber := None, totalPages := None\<rparr>) (reindexSlides currentSlides)
       = map (\<lambda>s. s\<lparr>pageNumber := None, totalPages := None\<rparr>) currentSlides
   \<and> map pageNumber (finishingPass now currentSlides)
       = map Some [1..<length currentSlides + 1]
   \<and> map totalPages (finishingPass now currentSlides)
       = replicate (length currentSlides) (Some (length currentSlides))"
  using reindex_from_pageNumber[of "length (filter (\<lambda>s. slideType s \<noteq> Cover) currentSlides)" 0 currentSlides]
  by (simp add: reindexSlides_def Let_def length_reindex_from reindex_from_totalPages
      reindex_from_cover reindex_from_frame pageNumber_finishingPass totalPages_finishingPass)

theorem reindexSlides_numbering_witness:
  "map pageNumber (reindexSlides
       [coverSlide (ascii ''T'') (ascii ''S'') (ascii ''C'') [] (ascii ''Q''),
        contentSlide (ascii ''C'') (ascii ''one''),
        contentSlide (ascii ''C'') (ascii ''two'')])
     = [None, Some 1, Some 2]
   \<and> map totalPages (reindexSlides
       [coverSlide (ascii ''T'') (ascii ''S'') (ascii ''C'') [] (ascii ''Q''),
        contentSlide (ascii ''C'') (ascii ''one''),
        contentSlide (ascii ''C'') (ascii ''two'')])
     = [Some 2, Some 2, Some 2]
   \<and> map pageNumber (finishingPass (\<lambda>index. 0)
       [coverSlide (ascii ''T'') (ascii ''S'') (ascii ''C'') [] (ascii ''Q''),
        contentSlide (ascii ''C'') (ascii ''one''),
        contentSlide (ascii ''C'') (ascii ''two'')])
     = [Some 1, Some 2, Some 3]
   \<and> map totalPages (finishingPass (\<lambda>index. 0)
       [coverSlide (ascii ''T'') (ascii ''S'') (ascii ''C'') [] (ascii ''Q''),
        contentSlide (ascii ''C'') (ascii ''one''),
        contentSlide (ascii ''C'') (ascii ''two'')])
     = [Some 3, Some 3, Some 3]"
proof -
  have u: "[1..<4] = [1, 2, Suc 2]"
    by (simp add: upt_rec)
  have r: "map pageNumber (reindexSlides
       [coverSlide (ascii ''T'') (ascii ''S'') (ascii ''C'') [] (ascii ''Q''),
        contentSlide (ascii ''C'') (ascii ''one''),
        contentSlide (ascii ''C'') (ascii ''two'')])
     = [None, Some 1, Some 2]"
    by (simp add: reindexSlides_def coverSlide_def contentSlide_def)
  show ?thesis
    using reindexSlides_numbering[of
      "[coverSlide (ascii ''T'') (ascii ''S'') (ascii ''C'') [] (ascii ''Q''),
        contentSlide (ascii ''C'') (ascii ''one''),
        contentSlide (ascii ''C'') (ascii ''two'')]" "\<lambda>index. 0"] r
    by (simp add: u coverSlide_def contentSlide_def numeral_3_eq_3)
qed

section \<open>The initial paragraphs\<close>

lemma lines_from_leading_newlines:
  "filter (\<lambda>line. trim line \<noteq> []) (lines_from [] (dropWhile (\<lambda>x. x = newline) cs))
     = filter (\<lambda>line. trim line \<noteq> []) (lines_from [] cs)"
  by (induction cs) auto

lemma split_newlines_lines:
  "filter (\<lambda>line. trim line \<noteq> []) (split_newlines piece cs)
     = filter (\<lambda>line. trim line \<noteq> []) (lines_from piece cs)"
proof (induction piece cs rule: split_newlines.induct)
  case (1 piece)
  show ?case by simp
next
  case (2 piece c cs)
  show ?case
  proof (cases "c = newline")
    case True
    with 2(1) have "filter (\<lambda>line. trim line \<noteq> []) (split_newlines [] (dropWhile (\<lambda>x. x = newline) cs))
        = filter (\<lambda>line. trim line \<noteq> []) (lines_from [] cs)"
      by (simp add: lines_from_leading_newlines)
    with True show ?thesis by simp
  next
    case False
    with 2(2) show ?thesis by simp
  qed
qed

lemma lines_from_no_newline:
  "newline \<notin> set piece \<Longrightarrow> line \<in> set (lines_from piece cs) \<Longrightarrow> newline \<notin> set line"
  by (induction piece cs rule: lines_from.induct) (auto split: if_splits)

text \<open>
  Claim C5, amended.  The initial paragraphs are the lines of the text that are not
  blank, as they stand: the text is split at every run of one or more newline
  characters, a piece that is empty or holds only white space is discarded, and a piece
  that is kept is not trimmed.  The route rejects an absent or empty text; for any other
  text, once the metadata call has returned, it answers with a cover slide followed by
  one content slide per initial paragraph, in order.
\<close>

theorem raw_paragraphs_lines:
  "rawParagraphs text = filter (\<lambda>line. trim line \<noteq> []) (text_lines text)
   \<and> (\<forall>p \<in> set (rawParagraphs text). newline \<notin> set p \<and> trim p \<noteq> [])
   \<and> apiGenerate None reqTitle reqSubtitle aiResult = Inl TextRequired
   \<and> apiGenerate (Some []) reqTitle reqSubtitle aiResult = Inl TextRequired
   \<and> (text \<noteq> [] \<longrightarrow> apiGenerate (Some text) reqTitle reqSubtitle None = Inl InternalError)
   \<and> (text \<noteq> [] \<longrightarrow>
        (\<exists>cover. slideType cover = Cover
           \<and> apiGenerate (Some text) reqTitle reqSubtitle (Some meta)
               = Inr (cover
                   # map (contentSlide (or_string (metaCategory meta) (ascii ''Knowledge'')))
                       (filter (\<lambda>line. trim line \<noteq> []) (text_lines text)))))"
proof -
  have eq: "rawParagraphs text = filter (\<lambda>line. trim line \<noteq> []) (text_lines text)"
    by (simp add: rawParagraphs_def text_lines_def split_newlines_lines)
  have nl: "\<forall>p \<in> set (rawParagraphs text). newline \<notin> set p \<and> trim p \<noteq> []"
    unfolding eq text_lines_def using lines_from_no_newline[of "[]" _ "text"] by auto
  have rej: "apiGenerate None reqTitle reqSubtitle aiResult = Inl TextRequired"
    "apiGenerate (Some []) reqTitle reqSubtitle aiResult = Inl TextRequired"
    by (simp_all add: apiGenerate_def)
  have err: "apiGenerate (Some text) reqTitle reqSubtitle None = Inl InternalError" if "text \<noteq> []"
    using that by (simp add: apiGenerate_def Let_def)
  have ok: "\<exists>cover. slideType cover = Cover
           \<and> apiGenerate (Some text) reqTitle reqSubtitle (Some meta)
               = Inr (cover
                   # map (contentSlide (or_string (metaCategory meta) (ascii ''Knowledge'')))
                       (filter (\<lambda>line. trim line \<noteq> []) (text_lines text)))"
    if "text \<noteq> []"
  proof -
    let ?cover = "coverSlide
        (or_string (metaTitle meta) (or_string reqTitle (ascii ''Main Title'')))
        (or_string (metaSubtitle meta) (or_string reqSubtitle (ascii ''Summary'')))
        (or_string (metaCategory meta) (ascii ''Knowledge''))
        (case metaTags meta of None \<Rightarrow> [[0x5E72, 0x8D27]] | Some ts \<Rightarrow> ts)
        (or_string (metaQuote meta)
           (or_string (case rawParagraphs text of [] \<Rightarrow> None | p # ps \<Rightarrow> Some p)
              (ascii ''Summary'')))"
    have "slideType ?cover = Cover"
      by (simp add: coverSlide_def)
    moreover have "apiGenerate (Some text) reqTitle reqSubtitle (Some meta)
        = Inr (?cover # map (contentSlide (or_string (metaCategory meta) (ascii ''Knowledge'')))
                 (rawParagraphs text))"
      using that by (simp add: apiGenerate_def Let_def)
    ultimately show ?thesis
      unfolding eq by blast
  qed
  from eq nl rej err ok show ?thesis
    by blast
qed

text \<open>
  The claim as stated fails: a single newline already separates two paragraphs, and
  the leading blank of a paragraph is kept.
\<close>

theorem raw_paragraphs_not_blank_line_split:
  "rawParagraphs twoLines = [ascii ''a'', ascii '' b'']
   \<and> spec_initial_paragraphs twoLines = [ascii ''a'' @ [newline] @ ascii '' b'']
   \<and> rawParagraphs (ascii '' b'') = [ascii '' b'']
   \<and> spec_initial_paragraphs (ascii '' b'') = [ascii ''b'']"
proof -
  have "rawParagraphs twoLines = [ascii ''a'', ascii '' b'']"
    by code_simp
  moreover have "spec_initial_paragraphs twoLines = [ascii ''a'' @ [newline] @ ascii '' b'']"
    by code_simp
  moreover have "rawParagraphs (ascii '' b'') = [ascii '' b'']"
    by code_simp
  moreover have "spec_initial_paragraphs (ascii '' b'') = [ascii ''b'']"
    by code_simp
  ultimately show ?thesis by blast
qed

theorem raw_paragraphs_lines_witness:
  "rawParagraphs threeParagraphs = [ascii ''a'', ascii '' b'', ascii ''c'']
   \<and> text_lines threeParagraphs = [ascii ''a'', [], ascii '' b'', [0x20], ascii ''c'']
   \<and> newline \<notin> set (ascii '' b'') \<and> trim (ascii '' b'') \<noteq> []
   \<and> threeParagraphs \<noteq> []
   \<and> apiGenerate (Some threeParagraphs) None None None = Inl InternalError
   \<and> apiGenerate (Some threeParagraphs) None None (Some noMetadata)
       = Inr [coverSlide (ascii ''Main Title'') (ascii ''Summary'') (ascii ''Knowledge'')
                [[0x5E72, 0x8D27]] (ascii ''a''),
              contentSlide (ascii ''Knowledge'') (ascii ''a''),
              contentSlide (ascii ''Knowledge'') (ascii '' b''),
              contentSlide (ascii ''Knowledge'') (ascii ''c'')]"
proof -
  have l: "text_lines threeParagraphs = [ascii ''a'', [], ascii '' b'', [0x20], ascii ''c'']"
    by code_simp
  have f: "filter (\<lambda>line. trim line \<noteq> []) [ascii ''a'', [], ascii '' b'', [0x20], ascii ''c'']
      = [ascii ''a'', ascii '' b'', ascii ''c'']"
    by code_simp
  have ne: "threeParagraphs \<noteq> []"
    by code_simp
  have g: "apiGenerate (Some threeParagraphs) None None (Some noMetadata)
       = Inr [coverSlide (ascii ''Main Title'') (ascii ''Summary'') (ascii ''Knowledge'')
                [[0x5E72, 0x8D27]] (ascii ''a''),
              contentSlide (ascii ''Knowledge'') (ascii ''a''),
              contentSlide (ascii ''Knowledge'') (ascii '' b''),
              contentSlide (ascii ''Knowledge'') (ascii ''c'')]"
    by code_simp
  note t = raw_paragraphs_lines[of threeParagraphs None None None noMetadata]
  from t have a: "rawParagraphs threeParagraphs = filter (\<lambda>line. trim line \<noteq> []) (text_lines threeParagraphs)"
    and b: "\<forall>p \<in> set (rawParagraphs threeParagraphs). newline \<notin> set p \<and> trim p \<noteq> []"
    by blast+
  from t ne have e: "apiGenerate (Some threeParagraphs) None None None = Inl InternalError"
    by blast
  have r: "rawParagraphs threeParagraphs = [ascii ''a'', ascii '' b'', ascii ''c'']"
    by (simp only: a l f)
  have "ascii '' b'' \<in> set (rawParagraphs threeParagraphs)"
    by (simp only: r list.set insert_iff simp_thms)
  with b have "newline \<notin> set (ascii '' b'') \<and> trim (ascii '' b'') \<noteq> []"
    by blast
  with l r ne e g show ?thesis by blast
qed

end
